theory Spec2Isabelle
  imports Main
begin

section \<open>The tic-tac-toe move selector of \<open>src/hooks/useAIService.ts\<close>\<close>

text \<open>
  The dense board is the \<open>Array<Array<string>>\<close> of the source: a list of rows, each a
  list of cell strings. A cell holds a marker (\<open>'X'\<close>, \<open>'O'\<close>) or the empty sentinel
  \<open>'-'\<close>. Coordinates are natural numbers; every read \<open>board[r][c]\<close> of the source is
  \<open>board ! r ! c\<close> and is only meaningful on a grid that has the cell, which the
  predicate \<open>grid3\<close> below states for the 3x3 grid built by \<open>convertToBoard\<close>.
\<close>

type_synonym board = "string list list"

definition EMPTY_CELL :: string where
  "EMPTY_CELL = ''-''"

definition grid3 :: "board \<Rightarrow> bool" where
  "grid3 b = (length b = 3 \<and> list_all (\<lambda>rowValue. length rowValue = 3) b)"

text \<open>The assignment \<open>board[r][c] = v\<close> on a cell that the grid has.\<close>

definition set_cell :: "board \<Rightarrow> nat \<Rightarrow> nat \<Rightarrow> string \<Rightarrow> board" where
  "set_cell b r c v = b[r := (b ! r)[c := v]]"

subsection \<open>Numbers\<close>

text \<open>
  Scores are JavaScript numbers. The search only ever produces integers and the two
  infinities (\<open>-Infinity\<close>, \<open>Infinity\<close>) that seed alpha, beta and the running best.
\<close>

datatype number = NegInfinity | Fin int | Infinity

instantiation number :: linorder
begin

fun less_eq_number :: "number \<Rightarrow> number \<Rightarrow> bool" where
  "less_eq_number NegInfinity y = True"
| "less_eq_number (Fin a) NegInfinity = False"
| "less_eq_number (Fin a) (Fin b) = (a \<le> b)"
| "less_eq_number (Fin a) Infinity = True"
| "less_eq_number Infinity NegInfinity = False"
| "less_eq_number Infinity (Fin b) = False"
| "less_eq_number Infinity Infinity = True"

definition less_number :: "number \<Rightarrow> number \<Rightarrow> bool" where
  "less_number x y = (x \<le> y \<and> \<not> y \<le> x)"

instance
proof
  fix x y z :: number
  show "(x < y) = (x \<le> y \<and> \<not> y \<le> x)"
    by (simp add: less_number_def)
  show "x \<le> x"
    by (cases x) simp_all
  show "x \<le> y \<Longrightarrow> y \<le> z \<Longrightarrow> x \<le> z"
    by (cases x; cases y; cases z) simp_all
  show "x \<le> y \<Longrightarrow> y \<le> x \<Longrightarrow> x = y"
    by (cases x; cases y) simp_all
  show "x \<le> y \<or> y \<le> x"
    by (cases x; cases y) auto
qed

end

subsection \<open>Records of the source\<close>

text \<open>\<open>bestMoveProps\<close>: \<open>row\<close> and \<open>col\<close> are optional, \<open>score\<close> is always there.\<close>

record bestMoveProps =
  row :: "nat option"
  col :: "nat option"
  score :: number

text \<open>
  The module-level variables \<open>DEPTH\<close>, \<open>PLAYER_CURRENT\<close> and \<open>PLAYER_OPPONENT\<close>.
  Only \<open>useAIService\<close> writes them; the search and the evaluator read them.
\<close>

record globals =
  DEPTH :: nat
  PLAYER_CURRENT :: string
  PLAYER_OPPONENT :: string

text \<open>The module as loaded: \<open>let DEPTH = 2\<close>, both markers not yet assigned.\<close>

definition module_init :: globals where
  "module_init = \<lparr>DEPTH = 2, PLAYER_CURRENT = [], PLAYER_OPPONENT = []\<rparr>"

text \<open>
  The literal \<open>counts\<close> of \<open>countsPlayer\<close> (its type \<open>BOARD_COUNT\<close> lives in
  \<open>game-setting\<close>; the literal gives its shape).
\<close>

record board_count =
  horizontal :: "nat list"
  vertical :: "nat list"
  diagonal :: "nat list"
  cornerControl :: nat
  centerControl :: nat

text \<open>\<open>boardCountInfo\<close>: the fields \<open>score\<close> and \<open>counts\<close> of the source.\<close>

record boardCountInfo =
  info_score :: int
  info_counts :: board_count

text \<open>One value of the \<open>PiecesMapType\<close> map: \<open>{direction: [row, col], content}\<close>.\<close>

record piece =
  direction :: "nat \<times> nat"
  content :: string

text \<open>The map itself, in its iteration (insertion) order: key and value.\<close>

type_synonym PiecesMapType = "(string \<times> piece) list"

datatype error = TypeError | OutOfGrid

subsection \<open>getAvailableBoards\<close>

definition getAvailableBoards :: "board \<Rightarrow> (nat \<times> nat) list" where
  "getAvailableBoards b =
     concat (map (\<lambda>(r, rowValue).
                    map (\<lambda>(c, colValue). (r, c))
                        (filter (\<lambda>(c, colValue). colValue = EMPTY_CELL) (enumerate 0 rowValue)))
                 (enumerate 0 b))"

subsection \<open>convertToBoard\<close>

text \<open>
  The source starts from a 3x3 grid of \<open>'-'\<close> and writes every piece without a bounds
  check. A row index outside the grid makes \<open>board[row]\<close> undefined and the write throws
  a TypeError. A column index outside the grid makes JavaScript grow the row past the
  grid; the model stops there with \<open>OutOfGrid\<close>, since no 3x3 board results.
\<close>

fun writePieces :: "PiecesMapType \<Rightarrow> board \<Rightarrow> error + board" where
  "writePieces [] b = Inr b"
| "writePieces (values # rest) b =
     (case direction (snd values) of (r, c) \<Rightarrow>
        if \<not> r < 3 then Inl TypeError
        else if \<not> c < 3 then Inl OutOfGrid
        else writePieces rest (set_cell b r c (content (snd values))))"

definition convertToBoard :: "PiecesMapType \<Rightarrow> error + board" where
  "convertToBoard boards = writePieces boards (replicate 3 (replicate 3 ''-''))"

subsection \<open>checkWinner and isGameOver\<close>

definition winningCombinations :: "((nat \<times> nat) \<times> (nat \<times> nat) \<times> (nat \<times> nat)) list" where
  "winningCombinations =
     [((0, 0), (0, 1), (0, 2)),
      ((1, 0), (1, 1), (1, 2)),
      ((2, 0), (2, 1), (2, 2)),
      ((0, 0), (1, 0), (2, 0)),
      ((0, 1), (1, 1), (2, 1)),
      ((0, 2), (1, 2), (2, 2)),
      ((0, 0), (1, 1), (2, 2)),
      ((0, 2), (1, 1), (2, 0))]"

text \<open>
  The \<open>for\<close> loop with its early \<open>return\<close>. \<open>playerA &&\<close> is JavaScript truthiness of a
  string: true unless the string is empty.
\<close>

fun checkCombinations ::
  "board \<Rightarrow> ((nat \<times> nat) \<times> (nat \<times> nat) \<times> (nat \<times> nat)) list \<Rightarrow> string" where
  "checkCombinations b [] = EMPTY_CELL"
| "checkCombinations b ((aa, bb, cc) # rest) =
     (let playerA = b ! fst aa ! snd aa;
          playerB = b ! fst bb ! snd bb;
          playerC = b ! fst cc ! snd cc
      in if playerA \<noteq> [] \<and> playerA = playerB \<and> playerA = playerC then playerA
         else checkCombinations b rest)"

definition checkWinner :: "board \<Rightarrow> string" where
  "checkWinner b = checkCombinations b winningCombinations"

definition isGameOver :: "board \<Rightarrow> bool" where
  "isGameOver b = (if checkWinner b = EMPTY_CELL then False else True)"

subsection \<open>countsPlayer\<close>

datatype key = K_horizontal | K_vertical | K_diagonal

text \<open>\<open>(counts[property] as number[])[value] += 1\<close>; \<open>row\<close> and \<open>col\<close> are not used.\<close>

fun addToCounts :: "board_count \<Rightarrow> nat \<Rightarrow> nat \<Rightarrow> key \<Rightarrow> nat \<Rightarrow> board_count" where
  "addToCounts counts r c K_horizontal v =
     counts\<lparr>horizontal := (horizontal counts)[v := horizontal counts ! v + 1]\<rparr>"
| "addToCounts counts r c K_vertical v =
     counts\<lparr>vertical := (vertical counts)[v := vertical counts ! v + 1]\<rparr>"
| "addToCounts counts r c K_diagonal v =
     counts\<lparr>diagonal := (diagonal counts)[v := diagonal counts ! v + 1]\<rparr>"

text \<open>The body of the two nested \<open>for\<close> loops, for one cell.\<close>

definition countCell :: "board \<Rightarrow> string \<Rightarrow> nat \<Rightarrow> nat \<Rightarrow> board_count \<Rightarrow> board_count" where
  "countCell b player r c counts =
     (if b ! r ! c = player then
        let counts = addToCounts counts r c K_horizontal r;
            counts = addToCounts counts r c K_vertical c;
            counts = (if r = c then addToCounts counts r c K_diagonal 0 else counts);
            counts = (if r + c = 2 then addToCounts counts r c K_diagonal 1 else counts);
            counts = (if (r = 0 \<or> r = 2) \<and> (c = 0 \<or> c = 2)
                      then counts\<lparr>cornerControl := cornerControl counts + 1\<rparr> else counts);
            counts = (if r = 1 \<and> c = 1
                      then counts\<lparr>centerControl := centerControl counts + 1\<rparr> else counts)
        in counts
      else counts)"

definition counts_init :: board_count where
  "counts_init =
     \<lparr>horizontal = [0, 0, 0], vertical = [0, 0, 0], diagonal = [0, 0],
      cornerControl = 0, centerControl = 0\<rparr>"

definition countLoop :: "board \<Rightarrow> string \<Rightarrow> board_count" where
  "countLoop b player =
     fold (\<lambda>r counts. fold (\<lambda>c counts. countCell b player r c counts) [0..<3] counts)
          [0..<3] counts_init"

text \<open>\<open>reduce((acc, count) => acc + Math.pow(10, count), 0) * factor\<close>.\<close>

fun calculateScore :: "board_count \<Rightarrow> key \<Rightarrow> int \<Rightarrow> int" where
  "calculateScore counts K_horizontal factor =
     foldl (\<lambda>acc count. acc + 10 ^ count) 0 (horizontal counts) * factor"
| "calculateScore counts K_vertical factor =
     foldl (\<lambda>acc count. acc + 10 ^ count) 0 (vertical counts) * factor"
| "calculateScore counts K_diagonal factor =
     foldl (\<lambda>acc count. acc + 10 ^ count) 0 (diagonal counts) * factor"

definition countsPlayer :: "board \<Rightarrow> string \<Rightarrow> boardCountInfo" where
  "countsPlayer b player =
     (let counts = countLoop b player;
          score = calculateScore counts K_horizontal 1 +
                  calculateScore counts K_vertical 1 +
                  calculateScore counts K_diagonal 1 +
                  (5 * int (cornerControl counts)) +
                  (10 * int (centerControl counts))
      in \<lparr>info_score = score, info_counts = counts\<rparr>)"

subsection \<open>nextPlayerIsWin and evaluateBoard\<close>

definition nextPlayerIsWin :: "globals \<Rightarrow> int list \<Rightarrow> int" where
  "nextPlayerIsWin g countsSubArr =
     (if DEPTH g mod 2 = 0 \<and> (2 \<in> set countsSubArr \<or> 3 \<in> set countsSubArr) then 50
      else if DEPTH g mod 2 \<noteq> 0 \<and> (- 2 \<in> set countsSubArr \<or> - 3 \<in> set countsSubArr) then - 50
      else 0)"

text \<open>
  The evaluator flattens the line counts through a string: the numbers are joined into
  decimal text, the text is split into its characters, and \<open>Number\<close> reads each character
  back. \<open>Number\<close> is modelled on digit strings, the only ones it is given here.
\<close>

definition digit_char :: "nat \<Rightarrow> char" where
  "digit_char d = ''0123456789'' ! d"

fun string_of_nat :: "nat \<Rightarrow> string" where
  "string_of_nat n =
     (if n < 10 then [digit_char n] else string_of_nat (n div 10) @ [digit_char (n mod 10)])"

declare string_of_nat.simps [simp del]

definition join_str :: "nat list \<Rightarrow> string" where
  "join_str xs = concat (map string_of_nat xs)"

definition split_str :: "string \<Rightarrow> string list" where
  "split_str s = map (\<lambda>ch. [ch]) s"

definition digit_val :: "char \<Rightarrow> int" where
  "digit_val ch = int (length (takeWhile (\<lambda>d. d \<noteq> ch) ''0123456789''))"

definition Number :: "string \<Rightarrow> int" where
  "Number s = foldl (\<lambda>acc ch. acc * 10 + digit_val ch) 0 s"

definition flatten_counts :: "board_count \<Rightarrow> string list" where
  "flatten_counts counts =
     split_str (join_str (horizontal counts) @ join_str (vertical counts) @
                join_str (diagonal counts))"

text \<open>The local \<open>countsSubArr\<close> of \<open>evaluateBoard\<close>, from the two players' counts.\<close>

definition countsSubArr :: "board_count \<Rightarrow> board_count \<Rightarrow> int list" where
  "countsSubArr countsCurrent countsOpponent =
     (let countsCurrentArr = flatten_counts countsCurrent;
          countsOpponentArr = flatten_counts countsOpponent
      in map (\<lambda>(count, index). Number count - Number (countsOpponentArr ! index))
             (zip countsCurrentArr [0..<length countsCurrentArr]))"

definition evaluateBoard :: "globals \<Rightarrow> board \<Rightarrow> int" where
  "evaluateBoard g b =
     (let cur = countsPlayer b (PLAYER_CURRENT g);
          opp = countsPlayer b (PLAYER_OPPONENT g);
          score = info_score cur +
                  nextPlayerIsWin g (countsSubArr (info_counts cur) (info_counts opp))
      in score - info_score opp)"

subsection \<open>minimax\<close>

text \<open>
  The board is mutated in place by the source, so the search takes the board and gives
  it back: every function below returns the board as it leaves it. The two \<open>for\<close>
  loops over \<open>emptyCells\<close> carry \<open>alpha\<close> (or \<open>beta\<close>) and \<open>bestMove\<close>; \<open>break\<close>
  ends the loop with the current \<open>bestMove\<close>. The argument \<open>search\<close> is the recursive
  call of the loop body, \<open>minimax(board, \<dots>, alpha, beta, depth - 1)\<close>.
\<close>

fun maximizeLoop ::
  "(board \<Rightarrow> number \<Rightarrow> number \<Rightarrow> bestMoveProps \<times> board) \<Rightarrow> string \<Rightarrow> (nat \<times> nat) list \<Rightarrow>
   board \<Rightarrow> number \<Rightarrow> number \<Rightarrow> bestMoveProps \<Rightarrow> bestMoveProps \<times> board" where
  "maximizeLoop search player [] b alpha beta bestMove = (bestMove, b)"
| "maximizeLoop search player ((r, c) # rest) b alpha beta bestMove =
     (let b1 = set_cell b r c player;
          (currentMoce, b2) = search b1 alpha beta;
          b3 = set_cell b2 r c EMPTY_CELL;
          currentMoce = currentMoce\<lparr>row := Some r, col := Some c\<rparr>;
          bestMove = (if score currentMoce > score bestMove then currentMoce else bestMove);
          alpha = max alpha (score bestMove)
      in if alpha \<ge> beta then (bestMove, b3)
         else maximizeLoop search player rest b3 alpha beta bestMove)"

fun minimizeLoop ::
  "(board \<Rightarrow> number \<Rightarrow> number \<Rightarrow> bestMoveProps \<times> board) \<Rightarrow> string \<Rightarrow> (nat \<times> nat) list \<Rightarrow>
   board \<Rightarrow> number \<Rightarrow> number \<Rightarrow> bestMoveProps \<Rightarrow> bestMoveProps \<times> board" where
  "minimizeLoop search player [] b alpha beta bestMove = (bestMove, b)"
| "minimizeLoop search player ((r, c) # rest) b alpha beta bestMove =
     (let b1 = set_cell b r c player;
          (currentMoce, b2) = search b1 alpha beta;
          b3 = set_cell b2 r c EMPTY_CELL;
          currentMoce = currentMoce\<lparr>row := Some r, col := Some c\<rparr>;
          bestMove = (if score currentMoce < score bestMove then currentMoce else bestMove);
          beta = min beta (score bestMove)
      in if alpha \<ge> beta then (bestMove, b3)
         else minimizeLoop search player rest b3 alpha beta bestMove)"

lemma maximizeLoop_cong [fundef_cong]:
  assumes "\<And>b' a bt. search b' a bt = search' b' a bt"
  shows "maximizeLoop search player cells b alpha beta bestMove =
         maximizeLoop search' player cells b alpha beta bestMove"
proof -
  have "search = search'"
    by (intro ext) (rule assms)
  then show ?thesis
    by simp
qed

lemma minimizeLoop_cong [fundef_cong]:
  assumes "\<And>b' a bt. search b' a bt = search' b' a bt"
  shows "minimizeLoop search player cells b alpha beta bestMove =
         minimizeLoop search' player cells b alpha beta bestMove"
proof -
  have "search = search'"
    by (intro ext) (rule assms)
  then show ?thesis
    by simp
qed

fun minimax ::
  "globals \<Rightarrow> board \<Rightarrow> bool \<Rightarrow> number \<Rightarrow> number \<Rightarrow> nat \<Rightarrow> bestMoveProps \<times> board" where
  "minimax g b maximizingPlayer alpha beta depth =
     (if depth = 0 \<or> isGameOver b \<or> length (getAvailableBoards b) = 0
      then (\<lparr>row = None, col = None, score = Fin (evaluateBoard g b)\<rparr>, b)
      else if maximizingPlayer
      then maximizeLoop (\<lambda>b' a bt. minimax g b' False a bt (depth - 1))
             (PLAYER_CURRENT g) (getAvailableBoards b) b alpha beta
             \<lparr>row = None, col = None, score = NegInfinity\<rparr>
      else minimizeLoop (\<lambda>b' a bt. minimax g b' True a bt (depth - 1))
             (PLAYER_OPPONENT g) (getAvailableBoards b) b alpha beta
             \<lparr>row = None, col = None, score = Infinity\<rparr>)"

declare minimax.simps [simp del]

subsection \<open>useAIService\<close>

text \<open>
  \<open>usePieces\<close> is the win check of \<open>./usePieces\<close>, a collaborator outside this module:
  it is a parameter of the model, called as the source calls it, with the position map
  \<open>board\<close> (not the dense board), 3, 3 and the tried cell. The loop gives back either
  the cell it returned from, or the dense board as the loop leaves it.
\<close>

fun tryEmptyCells ::
  "(PiecesMapType \<Rightarrow> nat \<Rightarrow> nat \<Rightarrow> nat \<times> nat \<Rightarrow> bool) \<Rightarrow> globals \<Rightarrow> PiecesMapType \<Rightarrow>
   (nat \<times> nat) list \<Rightarrow> board \<Rightarrow> (nat \<times> nat) + board" where
  "tryEmptyCells usePieces g board [] newBoads = Inr newBoads"
| "tryEmptyCells usePieces g board ((r, c) # rest) newBoads =
     (let nb1 = set_cell newBoads r c (PLAYER_CURRENT g)
      in if usePieces board 3 3 (r, c) then Inl (r, c)
         else tryEmptyCells usePieces g board rest (set_cell nb1 r c EMPTY_CELL))"

text \<open>
  The result is the returned \<open>{row, col}\<close> (each possibly undefined behind the
  \<open>as number\<close> cast) together with the module variables after the call.
\<close>

definition useAIService ::
  "(PiecesMapType \<Rightarrow> nat \<Rightarrow> nat \<Rightarrow> nat \<times> nat \<Rightarrow> bool) \<Rightarrow> globals \<Rightarrow> PiecesMapType \<Rightarrow> bool \<Rightarrow>
   error + ((nat option \<times> nat option) \<times> globals)" where
  "useAIService usePieces g0 board isFirstAI =
     (case convertToBoard board of
        Inl e \<Rightarrow> Inl e
      | Inr newBoads \<Rightarrow>
          let g = g0\<lparr>PLAYER_CURRENT := (if isFirstAI then ''X'' else ''O''),
                     PLAYER_OPPONENT := (if \<not> isFirstAI then ''X'' else ''O'')\<rparr>;
              emptyCells = getAvailableBoards newBoads;
              tried = (if length emptyCells \<le> 5
                       then tryEmptyCells usePieces g board emptyCells newBoads
                       else Inr newBoads)
          in (case tried of
                Inl (r, c) \<Rightarrow> Inr ((Some r, Some c), g)
              | Inr newBoads \<Rightarrow>
                  (let bestMove = fst (minimax g newBoads True NegInfinity Infinity (DEPTH g))
                   in Inr ((row bestMove, col bestMove), g\<lparr>DEPTH := DEPTH g + 1\<rparr>))))"

section \<open>The vocabulary of the specification\<close>

subsection \<open>Lines\<close>

text \<open>A marker holds a line when all three cells of one of the eight triples carry it.\<close>

definition holds_line :: "board \<Rightarrow> string \<Rightarrow> bool" where
  "holds_line b m =
     list_ex (\<lambda>(aa, bb, cc). b ! fst aa ! snd aa = m \<and> b ! fst bb ! snd bb = m \<and>
                              b ! fst cc ! snd cc = m) winningCombinations"

text \<open>Placing the marker on a cell completes a line through that cell.\<close>

definition completes_line :: "board \<Rightarrow> string \<Rightarrow> nat \<times> nat \<Rightarrow> bool" where
  "completes_line b m cell =
     list_ex (\<lambda>(aa, bb, cc). (cell = aa \<or> cell = bb \<or> cell = cc) \<and>
                (let b' = set_cell b (fst cell) (snd cell) m
                 in b' ! fst aa ! snd aa = m \<and> b' ! fst bb ! snd bb = m \<and>
                    b' ! fst cc ! snd cc = m)) winningCombinations"

subsection \<open>Line score and parity bonus\<close>

text \<open>The eight lines in the fixed order: rows, columns, diagonals.\<close>

definition lines8 :: "(nat \<times> nat) list list" where
  "lines8 =
     [[(0, 0), (0, 1), (0, 2)], [(1, 0), (1, 1), (1, 2)], [(2, 0), (2, 1), (2, 2)],
      [(0, 0), (1, 0), (2, 0)], [(0, 1), (1, 1), (2, 1)], [(0, 2), (1, 2), (2, 2)],
      [(0, 0), (1, 1), (2, 2)], [(0, 2), (1, 1), (2, 0)]]"

definition occupancy :: "board \<Rightarrow> string \<Rightarrow> (nat \<times> nat) list \<Rightarrow> nat" where
  "occupancy b player cells = length (filter (\<lambda>(r, c). b ! r ! c = player) cells)"

definition line_counts :: "board \<Rightarrow> string \<Rightarrow> nat list" where
  "line_counts b player = map (occupancy b player) lines8"

definition corner_count :: "board \<Rightarrow> string \<Rightarrow> nat" where
  "corner_count b player = occupancy b player [(0, 0), (0, 2), (2, 0), (2, 2)]"

definition center_count :: "board \<Rightarrow> string \<Rightarrow> nat" where
  "center_count b player = occupancy b player [(1, 1)]"

definition line_score :: "board \<Rightarrow> string \<Rightarrow> int" where
  "line_score b player =
     sum_list (map (\<lambda>count. 10 ^ count) (line_counts b player)) +
     5 * int (corner_count b player) + 10 * int (center_count b player)"

definition line_differences :: "globals \<Rightarrow> board \<Rightarrow> int list" where
  "line_differences g b =
     map (\<lambda>(x, y). int x - int y)
         (zip (line_counts b (PLAYER_CURRENT g)) (line_counts b (PLAYER_OPPONENT g)))"

definition parity_bonus :: "globals \<Rightarrow> board \<Rightarrow> int" where
  "parity_bonus g b =
     (if even (DEPTH g) \<and> list_ex (\<lambda>d. d = 2 \<or> d = 3) (line_differences g b) then 50
      else if odd (DEPTH g) \<and> list_ex (\<lambda>d. d = - 2 \<or> d = - 3) (line_differences g b)
      then - 50
      else 0)"

subsection \<open>The unpruned traversal\<close>

text \<open>
  The full minimax traversal the specification compares the search with: the same base
  case, the same enumeration and the same strict comparison, without alpha, beta and
  the cutoff. It works on copies of the board.
\<close>

fun fullMaximize ::
  "(board \<Rightarrow> bestMoveProps) \<Rightarrow> string \<Rightarrow> (nat \<times> nat) list \<Rightarrow> board \<Rightarrow> bestMoveProps \<Rightarrow>
   bestMoveProps" where
  "fullMaximize search player [] b bestMove = bestMove"
| "fullMaximize search player ((r, c) # rest) b bestMove =
     (let currentMoce = (search (set_cell b r c player))\<lparr>row := Some r, col := Some c\<rparr>;
          bestMove = (if score currentMoce > score bestMove then currentMoce else bestMove)
      in fullMaximize search player rest b bestMove)"

fun fullMinimize ::
  "(board \<Rightarrow> bestMoveProps) \<Rightarrow> string \<Rightarrow> (nat \<times> nat) list \<Rightarrow> board \<Rightarrow> bestMoveProps \<Rightarrow>
   bestMoveProps" where
  "fullMinimize search player [] b bestMove = bestMove"
| "fullMinimize search player ((r, c) # rest) b bestMove =
     (let currentMoce = (search (set_cell b r c player))\<lparr>row := Some r, col := Some c\<rparr>;
          bestMove = (if score currentMoce < score bestMove then currentMoce else bestMove)
      in fullMinimize search player rest b bestMove)"

lemma fullMaximize_cong [fundef_cong]:
  assumes "\<And>b'. search b' = search' b'"
  shows "fullMaximize search player cells b bestMove =
         fullMaximize search' player cells b bestMove"
proof -
  have "search = search'"
    by (intro ext) (rule assms)
  then show ?thesis
    by simp
qed

lemma fullMinimize_cong [fundef_cong]:
  assumes "\<And>b'. search b' = search' b'"
  shows "fullMinimize search player cells b bestMove =
         fullMinimize search' player cells b bestMove"
proof -
  have "search = search'"
    by (intro ext) (rule assms)
  then show ?thesis
    by simp
qed

fun minimax_full :: "globals \<Rightarrow> board \<Rightarrow> bool \<Rightarrow> nat \<Rightarrow> bestMoveProps" where
  "minimax_full g b maximizingPlayer depth =
     (if depth = 0 \<or> isGameOver b \<or> length (getAvailableBoards b) = 0
      then \<lparr>row = None, col = None, score = Fin (evaluateBoard g b)\<rparr>
      else if maximizingPlayer
      then fullMaximize (\<lambda>b'. minimax_full g b' False (depth - 1))
             (PLAYER_CURRENT g) (getAvailableBoards b) b
             \<lparr>row = None, col = None, score = NegInfinity\<rparr>
      else fullMinimize (\<lambda>b'. minimax_full g b' True (depth - 1))
             (PLAYER_OPPONENT g) (getAvailableBoards b) b
             \<lparr>row = None, col = None, score = Infinity\<rparr>)"

declare minimax_full.simps [simp del]

section \<open>Auxiliary notions of the proofs\<close>

text \<open>Every listed cell lies on the board and is empty.\<close>

definition cells_empty :: "board \<Rightarrow> (nat \<times> nat) list \<Rightarrow> bool" where
  "cells_empty b cells =
     list_all (\<lambda>(r, c). r < length b \<and> c < length (b ! r) \<and> b ! r ! c = EMPTY_CELL) cells"


text \<open>
  What a search with the window \<open>(a, b)\<close> may return for a position of true value \<open>v\<close>:
  the exact value inside the window, a bound on it outside.
\<close>

definition window_sound :: "number \<Rightarrow> number \<Rightarrow> number \<Rightarrow> number \<Rightarrow> bool" where
  "window_sound a b v ab =
     ((ab \<le> a \<longrightarrow> v \<le> ab) \<and> (a < ab \<and> ab < b \<longrightarrow> ab = v) \<and> (b \<le> ab \<longrightarrow> ab \<le> v))"


text \<open>
  The two loops of \<open>minimax\<close> once the board is known to come back unchanged from every
  recursive call: the same steps on the score and the kept move, without the board.
\<close>

fun prunedMaximize ::
  "(board \<Rightarrow> number \<Rightarrow> number \<Rightarrow> bestMoveProps) \<Rightarrow> string \<Rightarrow> (nat \<times> nat) list \<Rightarrow>
   board \<Rightarrow> number \<Rightarrow> number \<Rightarrow> bestMoveProps \<Rightarrow> bestMoveProps" where
  "prunedMaximize search player [] b alpha beta bestMove = bestMove"
| "prunedMaximize search player ((r, c) # rest) b alpha beta bestMove =
     (let currentMoce = (search (set_cell b r c player) alpha beta)\<lparr>row := Some r, col := Some c\<rparr>;
          bestMove = (if score currentMoce > score bestMove then currentMoce else bestMove);
          alpha = max alpha (score bestMove)
      in if alpha \<ge> beta then bestMove
         else prunedMaximize search player rest b alpha beta bestMove)"

fun prunedMinimize ::
  "(board \<Rightarrow> number \<Rightarrow> number \<Rightarrow> bestMoveProps) \<Rightarrow> string \<Rightarrow> (nat \<times> nat) list \<Rightarrow>
   board \<Rightarrow> number \<Rightarrow> number \<Rightarrow> bestMoveProps \<Rightarrow> bestMoveProps" where
  "prunedMinimize search player [] b alpha beta bestMove = bestMove"
| "prunedMinimize search player ((r, c) # rest) b alpha beta bestMove =
     (let currentMoce = (search (set_cell b r c player) alpha beta)\<lparr>row := Some r, col := Some c\<rparr>;
          bestMove = (if score currentMoce < score bestMove then currentMoce else bestMove);
          beta = min beta (score bestMove)
      in if alpha \<ge> beta then bestMove
         else prunedMinimize search player rest b alpha beta bestMove)"


text \<open>The markers as \<open>useAIService\<close> assigns them from \<open>isFirstAI\<close>.\<close>

definition markers :: "globals \<Rightarrow> bool \<Rightarrow> globals" where
  "markers g isFirstAI =
     g\<lparr>PLAYER_CURRENT := (if isFirstAI then ''X'' else ''O''),
       PLAYER_OPPONENT := (if \<not> isFirstAI then ''X'' else ''O'')\<rparr>"

text \<open>The immediate-win loop runs and the collaborator reports a win for some empty cell.\<close>

definition short_circuit ::
  "(PiecesMapType \<Rightarrow> nat \<Rightarrow> nat \<Rightarrow> nat \<times> nat \<Rightarrow> bool) \<Rightarrow> PiecesMapType \<Rightarrow> board \<Rightarrow> bool" where
  "short_circuit usePieces board newBoads =
     (length (getAvailableBoards newBoads) \<le> 5 \<and>
      list_ex (\<lambda>cell. usePieces board 3 3 cell) (getAvailableBoards newBoads))"

text \<open>
  Modelled from the spec: \<open>usePieces\<close>, the win check imported from \<open>./usePieces\<close>, is
  not among the sources. The specification describes it as the collaborator that, asked
  about the move just placed on a cell, answers whether that move wins immediately. The
  predicate says that a given collaborator answers so for every empty cell of the dense
  board, when the placed marker is \<open>player\<close>.
\<close>

definition usePieces_per_spec ::
  "(PiecesMapType \<Rightarrow> nat \<Rightarrow> nat \<Rightarrow> nat \<times> nat \<Rightarrow> bool) \<Rightarrow> PiecesMapType \<Rightarrow> board \<Rightarrow> string \<Rightarrow> bool" where
  "usePieces_per_spec usePieces board newBoads player =
     list_all (\<lambda>cell. usePieces board 3 3 cell = completes_line newBoads player cell)
       (getAvailableBoards newBoads)"

text \<open>The move of a result is one of the given cells and its score is an integer.\<close>

definition move_in :: "(nat \<times> nat) set \<Rightarrow> bestMoveProps \<Rightarrow> bool" where
  "move_in C m =
     (\<exists>cell \<in> C. row m = Some (fst cell) \<and> col m = Some (snd cell) \<and> (\<exists>x. score m = Fin x))"

text \<open>The nine cells top to bottom, left to right.\<close>

definition row_major :: "(nat \<times> nat) list" where
  "row_major = [(0, 0), (0, 1), (0, 2), (1, 0), (1, 1), (1, 2), (2, 0), (2, 1), (2, 2)]"

text \<open>
  The score of the position after a move on a cell: what the search with the full window
  returns for it, one level deeper and with the other side to move.
\<close>

definition child_score :: "globals \<Rightarrow> board \<Rightarrow> bool \<Rightarrow> nat \<Rightarrow> nat \<times> nat \<Rightarrow> number" where
  "child_score g b maximizingPlayer depth cell =
     score (fst (minimax g
       (set_cell b (fst cell) (snd cell)
          (if maximizingPlayer then PLAYER_CURRENT g else PLAYER_OPPONENT g))
       (\<not> maximizingPlayer) NegInfinity Infinity (depth - 1)))"

text \<open>
  The cell is the first of the enumeration that reaches the best score: every cell
  before it is strictly worse, no cell after it is better.
\<close>

definition first_best ::
  "bool \<Rightarrow> (nat \<times> nat \<Rightarrow> number) \<Rightarrow> (nat \<times> nat) list \<Rightarrow> nat \<times> nat \<Rightarrow> bool" where
  "first_best maximizingPlayer val cells cell =
     (cell \<in> set cells \<and>
      list_all (\<lambda>x. if maximizingPlayer then val x < val cell else val cell < val x)
        (takeWhile (\<lambda>x. x \<noteq> cell) cells) \<and>
      list_all (\<lambda>x. if maximizingPlayer then val x \<le> val cell else val cell \<le> val x)
        (dropWhile (\<lambda>x. x \<noteq> cell) cells))"

section \<open>Concrete positions\<close>

definition piece_at :: "nat \<Rightarrow> nat \<Rightarrow> string \<Rightarrow> string \<times> piece" where
  "piece_at r c m = (string_of_nat r @ ''-'' @ string_of_nat c, \<lparr>direction = (r, c), content = m\<rparr>)"

text \<open>X on (1,0), (1,1), (1,2) and O on (2,0), (2,1); the top row is empty.\<close>

definition board_row1_won :: board where
  "board_row1_won = [[''-'', ''-'', ''-''], [''X'', ''X'', ''X''], [''O'', ''O'', ''-'']]"

text \<open>The scenario of the specification: X on (0,0), (0,1), O on (1,0), (1,1).\<close>

definition position_x_to_win :: PiecesMapType where
  "position_x_to_win =
     [piece_at 0 0 ''X'', piece_at 1 0 ''O'', piece_at 0 1 ''X'', piece_at 1 1 ''O'']"

text \<open>A collaborator that reports a win for the cell (0,2) and for no other cell.\<close>

definition usePieces_at_0_2 :: "PiecesMapType \<Rightarrow> nat \<Rightarrow> nat \<Rightarrow> nat \<times> nat \<Rightarrow> bool" where
  "usePieces_at_0_2 board rows cols lastMove = (lastMove = (0, 2))"

text \<open>A collaborator that never reports a win.\<close>

definition usePieces_never :: "PiecesMapType \<Rightarrow> nat \<Rightarrow> nat \<Rightarrow> nat \<times> nat \<Rightarrow> bool" where
  "usePieces_never board rows cols lastMove = False"

text \<open>X has completed the top row; O on (1,0), (2,1); four cells are empty.\<close>

definition position_row0_won :: PiecesMapType where
  "position_row0_won =
     [piece_at 0 0 ''X'', piece_at 1 0 ''O'', piece_at 0 1 ''X'', piece_at 2 1 ''O'',
      piece_at 0 2 ''X'']"

text \<open>
  A board on which two moves of X tie: (2,0) and (2,2) each complete a diagonal, (1,2)
  completes nothing.
\<close>

definition board_tie :: board where
  "board_tie = [[''X'', ''O'', ''X''], [''O'', ''X'', ''-''], [''-'', ''O'', ''-'']]"

text \<open>The module variables of a first call in which the AI plays X.\<close>

definition globals_ai_x :: globals where
  "globals_ai_x = \<lparr>DEPTH = 2, PLAYER_CURRENT = ''X'', PLAYER_OPPONENT = ''O''\<rparr>"

section \<open>Win detection\<close>

text \<open>
  C1. \<open>checkWinner\<close> should report a marker whenever one of the eight triples carries it
  on all three cells. On the board with X on the whole middle row, O on (2,0) and (2,1)
  and an empty top row, X holds a line, yet the scan stops at the top row, whose three
  equal cells \<open>'-'\<close> pass the truthiness test, and returns the empty sentinel: the board is
  not seen as finished.
\<close>

theorem checkWinner_empty_row_hides_win:
  "holds_line board_row1_won ''X'' \<and> checkWinner board_row1_won = EMPTY_CELL \<and>
   isGameOver board_row1_won = False"
  by code_simp

section \<open>The evaluator\<close>

lemma upt3: "[0..<3] = [0, 1, 2]"
  by (simp add: upt_rec)

lemma countLoop_unfold:
  "countLoop b p =
     countCell b p 2 2 (countCell b p 2 1 (countCell b p 2 0
     (countCell b p 1 2 (countCell b p 1 1 (countCell b p 1 0
     (countCell b p 0 2 (countCell b p 0 1 (countCell b p 0 0 counts_init))))))))"
  by (simp add: countLoop_def upt3)

lemma horizontal_countCell:
  "horizontal (countCell b p r c cs) =
     (if b ! r ! c = p then (horizontal cs)[r := horizontal cs ! r + 1] else horizontal cs)"
  by (simp add: countCell_def Let_def)

lemma vertical_countCell:
  "vertical (countCell b p r c cs) =
     (if b ! r ! c = p then (vertical cs)[c := vertical cs ! c + 1] else vertical cs)"
  by (simp add: countCell_def Let_def)

lemma diagonal_countCell:
  "diagonal (countCell b p r c cs) =
     (if b ! r ! c = p then
        (let d = (if r = c then (diagonal cs)[0 := diagonal cs ! 0 + 1] else diagonal cs)
         in if r + c = 2 then d[1 := d ! 1 + 1] else d)
      else diagonal cs)"
  by (simp add: countCell_def Let_def)

lemma cornerControl_countCell:
  "cornerControl (countCell b p r c cs) =
     (if b ! r ! c = p \<and> (r = 0 \<or> r = 2) \<and> (c = 0 \<or> c = 2) then cornerControl cs + 1
      else cornerControl cs)"
  by (auto simp add: countCell_def Let_def)

lemma centerControl_countCell:
  "centerControl (countCell b p r c cs) =
     (if b ! r ! c = p \<and> r = 1 \<and> c = 1 then centerControl cs + 1 else centerControl cs)"
  by (auto simp add: countCell_def Let_def)

lemma horizontal_countLoop:
  "horizontal (countLoop b p) =
     [occupancy b p [(0, 0), (0, 1), (0, 2)], occupancy b p [(1, 0), (1, 1), (1, 2)],
      occupancy b p [(2, 0), (2, 1), (2, 2)]]"
  by (simp add: countLoop_unfold horizontal_countCell counts_init_def occupancy_def)

lemma vertical_countLoop:
  "vertical (countLoop b p) =
     [occupancy b p [(0, 0), (1, 0), (2, 0)], occupancy b p [(0, 1), (1, 1), (2, 1)],
      occupancy b p [(0, 2), (1, 2), (2, 2)]]"
  by (simp add: countLoop_unfold vertical_countCell counts_init_def occupancy_def)

lemma diagonal_countLoop:
  "diagonal (countLoop b p) =
     [occupancy b p [(0, 0), (1, 1), (2, 2)], occupancy b p [(0, 2), (1, 1), (2, 0)]]"
  by (simp add: countLoop_unfold diagonal_countCell counts_init_def occupancy_def Let_def)

lemma cornerControl_countLoop: "cornerControl (countLoop b p) = corner_count b p"
  by (simp add: countLoop_unfold cornerControl_countCell counts_init_def occupancy_def corner_count_def)

lemma centerControl_countLoop: "centerControl (countLoop b p) = center_count b p"
  by (simp add: countLoop_unfold centerControl_countCell counts_init_def occupancy_def center_count_def)

lemma info_counts_countsPlayer: "info_counts (countsPlayer b p) = countLoop b p"
  by (simp add: countsPlayer_def Let_def)

lemma calculateScore_countLoop:
  "calculateScore (countLoop b p) K_horizontal 1 =
     10 ^ occupancy b p [(0, 0), (0, 1), (0, 2)] + 10 ^ occupancy b p [(1, 0), (1, 1), (1, 2)] +
     10 ^ occupancy b p [(2, 0), (2, 1), (2, 2)]"
  "calculateScore (countLoop b p) K_vertical 1 =
     10 ^ occupancy b p [(0, 0), (1, 0), (2, 0)] + 10 ^ occupancy b p [(0, 1), (1, 1), (2, 1)] +
     10 ^ occupancy b p [(0, 2), (1, 2), (2, 2)]"
  "calculateScore (countLoop b p) K_diagonal 1 =
     10 ^ occupancy b p [(0, 0), (1, 1), (2, 2)] + 10 ^ occupancy b p [(0, 2), (1, 1), (2, 0)]"
  by (simp_all only: calculateScore.simps horizontal_countLoop vertical_countLoop
      diagonal_countLoop foldl.simps mult_1_right add_0)

lemma line_score_unfold:
  "line_score b p =
     10 ^ occupancy b p [(0, 0), (0, 1), (0, 2)] + 10 ^ occupancy b p [(1, 0), (1, 1), (1, 2)] +
     10 ^ occupancy b p [(2, 0), (2, 1), (2, 2)] +
     (10 ^ occupancy b p [(0, 0), (1, 0), (2, 0)] + 10 ^ occupancy b p [(0, 1), (1, 1), (2, 1)] +
      10 ^ occupancy b p [(0, 2), (1, 2), (2, 2)]) +
     (10 ^ occupancy b p [(0, 0), (1, 1), (2, 2)] + 10 ^ occupancy b p [(0, 2), (1, 1), (2, 0)]) +
     5 * int (corner_count b p) + 10 * int (center_count b p)"
  by (simp only: line_score_def line_counts_def lines8_def list.map sum_list.Cons sum_list.Nil)

lemma info_score_countsPlayer: "info_score (countsPlayer b p) = line_score b p"
  by (simp only: countsPlayer_def Let_def boardCountInfo.simps calculateScore_countLoop
      cornerControl_countLoop centerControl_countLoop line_score_unfold)

lemma occupancy_le: "occupancy b p cells \<le> length cells"
  by (simp add: occupancy_def)

lemma string_of_nat_digit: "n < 10 \<Longrightarrow> string_of_nat n = [digit_char n]"
  by (simp add: string_of_nat.simps)

lemma Number_digit: "n < 10 \<Longrightarrow> Number (string_of_nat n) = int n"
proof -
  assume n: "n < 10"
  then have "n \<in> {0, 1, 2, 3, 4, 5, 6, 7, 8, 9}"
    by auto
  then have "Number [digit_char n] = int n"
    by (auto simp add: Number_def digit_char_def digit_val_def)
  with n show ?thesis
    by (simp add: string_of_nat_digit)
qed

lemma flatten_counts_digits:
  assumes "horizontal cs = [h0, h1, h2]" "vertical cs = [v0, v1, v2]" "diagonal cs = [d0, d1]"
    and "list_all (\<lambda>n. n < 10) [h0, h1, h2, v0, v1, v2, d0, d1]"
  shows "flatten_counts cs = map string_of_nat [h0, h1, h2, v0, v1, v2, d0, d1]"
  using assms by (simp add: flatten_counts_def join_str_def split_str_def string_of_nat_digit)

lemma flatten_counts_countLoop:
  "flatten_counts (countLoop b p) = map string_of_nat (line_counts b p)"
proof -
  have le: "occupancy b p [x, y, z] < 10" for x y z
    using occupancy_le [of b p "[x, y, z]"] by simp
  show ?thesis
    by (rule trans [OF flatten_counts_digits
          [OF horizontal_countLoop vertical_countLoop diagonal_countLoop]])
       (simp_all add: le line_counts_def lines8_def)
qed

lemma line_counts_lt_10: "n \<in> set (line_counts b p) \<Longrightarrow> n < 10"
proof -
  have le: "occupancy b p [x, y, z] < 10" for x y z
    using occupancy_le [of b p "[x, y, z]"] by simp
  show "n \<in> set (line_counts b p) \<Longrightarrow> n < 10"
    by (auto simp add: line_counts_def lines8_def le)
qed

lemma length_line_counts: "length (line_counts b p) = 8"
  by (simp add: line_counts_def lines8_def)

lemma countsSubArr_countLoop:
  "countsSubArr (countLoop b (PLAYER_CURRENT g)) (countLoop b (PLAYER_OPPONENT g)) =
   line_differences g b"
proof (rule nth_equalityI)
  show "length (countsSubArr (countLoop b (PLAYER_CURRENT g)) (countLoop b (PLAYER_OPPONENT g))) =
        length (line_differences g b)"
    by (simp add: countsSubArr_def Let_def flatten_counts_countLoop line_differences_def
        length_line_counts)
next
  fix i
  assume "i < length (countsSubArr (countLoop b (PLAYER_CURRENT g))
                        (countLoop b (PLAYER_OPPONENT g)))"
  then have i: "i < 8"
    by (simp add: countsSubArr_def Let_def flatten_counts_countLoop length_line_counts)
  have c: "line_counts b (PLAYER_CURRENT g) ! i < 10"
    by (rule line_counts_lt_10 [of _ b "PLAYER_CURRENT g"]) (simp add: i length_line_counts)
  have o: "line_counts b (PLAYER_OPPONENT g) ! i < 10"
    by (rule line_counts_lt_10 [of _ b "PLAYER_OPPONENT g"]) (simp add: i length_line_counts)
  show "countsSubArr (countLoop b (PLAYER_CURRENT g)) (countLoop b (PLAYER_OPPONENT g)) ! i =
        line_differences g b ! i"
    using i c o
    by (simp add: countsSubArr_def Let_def flatten_counts_countLoop line_differences_def
        length_line_counts Number_digit)
qed

lemma nextPlayerIsWin_parity:
  "nextPlayerIsWin g (line_differences g b) = parity_bonus g b"
  by (auto simp add: nextPlayerIsWin_def parity_bonus_def list_ex_iff even_iff_mod_2_eq_zero)

lemma length_line_differences: "length (line_differences g b) = 8"
  by (simp add: line_differences_def length_line_counts)

lemma nextPlayerIsWin_cases:
  "nextPlayerIsWin g ds =
     (if even (DEPTH g) \<and> (\<exists>d \<in> set ds. d = 2 \<or> d = 3) then 50
      else if odd (DEPTH g) \<and> (\<exists>d \<in> set ds. d = - 2 \<or> d = - 3) then - 50
      else 0)"
  by (auto simp add: nextPlayerIsWin_def even_iff_mod_2_eq_zero)

text \<open>
  C6. For every board the score of each player is the sum over the eight line counts of
  ten to the power of the count, plus five times the corners held, plus ten times the
  centre; and the evaluation is the current player's score plus the parity bonus, minus
  the opponent's score.
\<close>

theorem evaluateBoard_line_score:
  "info_score (countsPlayer b player) = line_score b player \<and>
   evaluateBoard g b =
     (line_score b (PLAYER_CURRENT g) + parity_bonus g b) - line_score b (PLAYER_OPPONENT g)"
  by (simp add: evaluateBoard_def Let_def info_score_countsPlayer info_counts_countsPlayer
      countsSubArr_countLoop nextPlayerIsWin_parity)

text \<open>
  C7. The array the parity bonus is computed from is the list of the eight differences
  (current minus opponent) of the line counts in the order rows, columns, diagonals;
  the bonus is 50 when \<open>DEPTH\<close> is even and some difference is 2 or 3, -50 when
  \<open>DEPTH\<close> is odd and some difference is -2 or -3, and 0 otherwise; and this value
  is the term \<open>evaluateBoard\<close> adds to the current player's score before it
  subtracts the opponent's.
\<close>

theorem parity_bonus_of_differences:
  "countsSubArr (info_counts (countsPlayer b (PLAYER_CURRENT g)))
                (info_counts (countsPlayer b (PLAYER_OPPONENT g))) = line_differences g b \<and>
   length (line_differences g b) = 8 \<and>
   nextPlayerIsWin g (line_differences g b) =
     (if even (DEPTH g) \<and> (\<exists>d \<in> set (line_differences g b). d = 2 \<or> d = 3) then 50
      else if odd (DEPTH g) \<and> (\<exists>d \<in> set (line_differences g b). d = - 2 \<or> d = - 3) then - 50
      else 0) \<and>
   evaluateBoard g b =
     info_score (countsPlayer b (PLAYER_CURRENT g)) +
     (if even (DEPTH g) \<and> (\<exists>d \<in> set (line_differences g b). d = 2 \<or> d = 3) then 50
      else if odd (DEPTH g) \<and> (\<exists>d \<in> set (line_differences g b). d = - 2 \<or> d = - 3) then - 50
      else 0) -
     info_score (countsPlayer b (PLAYER_OPPONENT g))"
proof -
  have ev: "evaluateBoard g b =
     info_score (countsPlayer b (PLAYER_CURRENT g)) + nextPlayerIsWin g (line_differences g b) -
     info_score (countsPlayer b (PLAYER_OPPONENT g))"
    by (simp add: evaluateBoard_def Let_def info_counts_countsPlayer countsSubArr_countLoop)
  show ?thesis
    unfolding ev using nextPlayerIsWin_cases [of g "line_differences g b"]
    by (simp only: info_counts_countsPlayer countsSubArr_countLoop length_line_differences
        simp_thms)
qed

section \<open>The board after a search\<close>

lemma getAvailableBoards_mem:
  "(r, c) \<in> set (getAvailableBoards b) \<Longrightarrow>
   r < length b \<and> c < length (b ! r) \<and> b ! r ! c = EMPTY_CELL"
  by (auto simp add: getAvailableBoards_def in_set_enumerate_eq)

lemma set_cell_restore:
  "r < length b \<Longrightarrow> c < length (b ! r) \<Longrightarrow>
   set_cell (set_cell b r c p) r c (b ! r ! c) = b"
  by (simp add: set_cell_def)

lemma cells_empty_available: "cells_empty b (getAvailableBoards b)"
  unfolding cells_empty_def list_all_iff using getAvailableBoards_mem by blast

lemma maximizeLoop_board:
  assumes "\<And>b' a bt. snd (search b' a bt) = b'"
  shows "cells_empty b cells \<Longrightarrow> snd (maximizeLoop search p cells b alpha beta bm) = b"
proof (induction cells arbitrary: alpha beta bm)
  case Nil
  then show ?case by simp
next
  case (Cons cell cells)
  obtain r c where cell: "cell = (r, c)"
    by (cases cell)
  from Cons.prems have here: "r < length b" "c < length (b ! r)" "b ! r ! c = EMPTY_CELL"
    and rest: "cells_empty b cells"
    by (simp_all add: cells_empty_def cell)
  have undo: "set_cell (snd (search (set_cell b r c p) alpha beta)) r c EMPTY_CELL = b"
    using set_cell_restore [of r b c p] here by (simp add: assms)
  show ?case
    by (simp add: cell Let_def split_beta undo Cons.IH [OF rest])
qed

lemma minimizeLoop_board:
  assumes "\<And>b' a bt. snd (search b' a bt) = b'"
  shows "cells_empty b cells \<Longrightarrow> snd (minimizeLoop search p cells b alpha beta bm) = b"
proof (induction cells arbitrary: alpha beta bm)
  case Nil
  then show ?case by simp
next
  case (Cons cell cells)
  obtain r c where cell: "cell = (r, c)"
    by (cases cell)
  from Cons.prems have here: "r < length b" "c < length (b ! r)" "b ! r ! c = EMPTY_CELL"
    and rest: "cells_empty b cells"
    by (simp_all add: cells_empty_def cell)
  have undo: "set_cell (snd (search (set_cell b r c p) alpha beta)) r c EMPTY_CELL = b"
    using set_cell_restore [of r b c p] here by (simp add: assms)
  show ?case
    by (simp add: cell Let_def split_beta undo Cons.IH [OF rest])
qed

lemma minimax_board: "snd (minimax g b mx alpha beta depth) = b"
proof (induction depth arbitrary: b mx alpha beta)
  case 0
  show ?case
    by (simp add: minimax.simps)
next
  case (Suc d)
  show ?case
    by (simp add: minimax.simps [of g b mx alpha beta "Suc d"] Suc.IH
        maximizeLoop_board minimizeLoop_board cells_empty_available)
qed

text \<open>
  C10. Whatever the board, the side to move, the window and the depth, \<open>minimax\<close>
  leaves the board it mutates equal to the board it was given: every trial placement is
  undone, also when the loop stops at the cutoff.
\<close>

theorem minimax_restores_board:
  "snd (minimax g b maximizingPlayer alpha beta depth) = b"
  by (rule minimax_board)

section \<open>Pruning does not change the result\<close>

lemma maximizeLoop_pruned:
  assumes "\<And>b' a bt. snd (search b' a bt) = b'"
  shows "cells_empty b cells \<Longrightarrow>
         maximizeLoop search p cells b alpha beta bm =
         (prunedMaximize (\<lambda>b' a bt. fst (search b' a bt)) p cells b alpha beta bm, b)"
proof (induction cells arbitrary: alpha beta bm)
  case Nil
  then show ?case by simp
next
  case (Cons cell cells)
  obtain r c where cell: "cell = (r, c)"
    by (cases cell)
  from Cons.prems have here: "r < length b" "c < length (b ! r)" "b ! r ! c = EMPTY_CELL"
    and rest: "cells_empty b cells"
    by (simp_all add: cells_empty_def cell)
  have undo: "set_cell (snd (search (set_cell b r c p) alpha beta)) r c EMPTY_CELL = b"
    using set_cell_restore [of r b c p] here by (simp add: assms)
  show ?case
    by (simp add: cell Let_def split_beta undo Cons.IH [OF rest])
qed

lemma minimizeLoop_pruned:
  assumes "\<And>b' a bt. snd (search b' a bt) = b'"
  shows "cells_empty b cells \<Longrightarrow>
         minimizeLoop search p cells b alpha beta bm =
         (prunedMinimize (\<lambda>b' a bt. fst (search b' a bt)) p cells b alpha beta bm, b)"
proof (induction cells arbitrary: alpha beta bm)
  case Nil
  then show ?case by simp
next
  case (Cons cell cells)
  obtain r c where cell: "cell = (r, c)"
    by (cases cell)
  from Cons.prems have here: "r < length b" "c < length (b ! r)" "b ! r ! c = EMPTY_CELL"
    and rest: "cells_empty b cells"
    by (simp_all add: cells_empty_def cell)
  have undo: "set_cell (snd (search (set_cell b r c p) alpha beta)) r c EMPTY_CELL = b"
    using set_cell_restore [of r b c p] here by (simp add: assms)
  show ?case
    by (simp add: cell Let_def split_beta undo Cons.IH [OF rest])
qed

lemma prunedMaximize_ge:
  "score bm \<le> score (prunedMaximize search p cells b alpha beta bm)"
proof (induction cells arbitrary: alpha bm)
  case Nil
  show ?case by simp
next
  case (Cons cell cells)
  obtain r c where cell: "cell = (r, c)"
    by (cases cell)
  define cm where "cm = (search (set_cell b r c p) alpha beta)\<lparr>row := Some r, col := Some c\<rparr>"
  define bm' where "bm' = (if score cm > score bm then cm else bm)"
  have step: "score bm \<le> score bm'"
    by (auto simp add: bm'_def intro: less_imp_le)
  have unfold: "prunedMaximize search p (cell # cells) b alpha beta bm =
    (if beta \<le> max alpha (score bm') then bm'
     else prunedMaximize search p cells b (max alpha (score bm')) beta bm')"
    by (simp add: cell Let_def cm_def bm'_def)
  show ?case
    unfolding unfold using step Cons.IH [where bm = bm'] by (auto intro: order_trans)
qed

lemma fullMaximize_ge:
  "score bm \<le> score (fullMaximize search p cells b bm)"
proof (induction cells arbitrary: bm)
  case Nil
  show ?case by simp
next
  case (Cons cell cells)
  obtain r c where cell: "cell = (r, c)"
    by (cases cell)
  define cm where "cm = (search (set_cell b r c p))\<lparr>row := Some r, col := Some c\<rparr>"
  define bm' where "bm' = (if score cm > score bm then cm else bm)"
  have step: "score bm \<le> score bm'"
    by (auto simp add: bm'_def intro: less_imp_le)
  have unfold: "fullMaximize search p (cell # cells) b bm =
    fullMaximize search p cells b bm'"
    by (simp add: cell Let_def cm_def bm'_def)
  show ?case
    unfolding unfold using step Cons.IH [where bm = bm'] by (auto intro: order_trans)
qed

lemma prunedMinimize_le:
  "score (prunedMinimize search p cells b alpha beta bm) \<le> score bm"
proof (induction cells arbitrary: beta bm)
  case Nil
  show ?case by simp
next
  case (Cons cell cells)
  obtain r c where cell: "cell = (r, c)"
    by (cases cell)
  define cm where "cm = (search (set_cell b r c p) alpha beta)\<lparr>row := Some r, col := Some c\<rparr>"
  define bm' where "bm' = (if score cm < score bm then cm else bm)"
  have step: "score bm' \<le> score bm"
    by (auto simp add: bm'_def intro: less_imp_le)
  have unfold: "prunedMinimize search p (cell # cells) b alpha beta bm =
    (if min beta (score bm') \<le> alpha then bm'
     else prunedMinimize search p cells b alpha (min beta (score bm')) bm')"
    by (simp add: cell Let_def cm_def bm'_def)
  show ?case
    unfolding unfold using step Cons.IH [where bm = bm'] by (auto intro: order_trans)
qed

lemma fullMinimize_le:
  "score (fullMinimize search p cells b bm) \<le> score bm"
proof (induction cells arbitrary: bm)
  case Nil
  show ?case by simp
next
  case (Cons cell cells)
  obtain r c where cell: "cell = (r, c)"
    by (cases cell)
  define cm where "cm = (search (set_cell b r c p))\<lparr>row := Some r, col := Some c\<rparr>"
  define bm' where "bm' = (if score cm < score bm then cm else bm)"
  have step: "score bm' \<le> score bm"
    by (auto simp add: bm'_def intro: less_imp_le)
  have unfold: "fullMinimize search p (cell # cells) b bm =
    fullMinimize search p cells b bm'"
    by (simp add: cell Let_def cm_def bm'_def)
  show ?case
    unfolding unfold using step Cons.IH [where bm = bm'] by (auto intro: order_trans)
qed

lemma prunedMaximize_sound:
  assumes child: "\<And>b' a bt. a < bt \<Longrightarrow> window_sound a bt (score (F b')) (score (S b' a bt))"
  shows "score bmF \<le> score bm \<Longrightarrow> score bm \<le> alpha \<Longrightarrow> alpha < beta \<Longrightarrow>
         window_sound alpha beta (score (fullMaximize F p cells b bmF))
           (score (prunedMaximize S p cells b alpha beta bm))"
proof (induction cells arbitrary: alpha bm bmF)
  case Nil
  then show ?case
    by (auto simp add: window_sound_def)
next
  case (Cons cell cells)
  obtain r c where cell: "cell = (r, c)"
    by (cases cell)
  define ab where "ab = score (S (set_cell b r c p) alpha beta)"
  define v where "v = score (F (set_cell b r c p))"
  define bm' where "bm' =
    (if score ((S (set_cell b r c p) alpha beta)\<lparr>row := Some r, col := Some c\<rparr>) > score bm
     then (S (set_cell b r c p) alpha beta)\<lparr>row := Some r, col := Some c\<rparr> else bm)"
  define bmF' where "bmF' =
    (if score ((F (set_cell b r c p))\<lparr>row := Some r, col := Some c\<rparr>) > score bmF
     then (F (set_cell b r c p))\<lparr>row := Some r, col := Some c\<rparr> else bmF)"
  define R where "R = score (prunedMaximize S p cells b (max alpha (score bm')) beta bm')"
  define V where "V = score (fullMaximize F p cells b bmF')"
  have ws: "window_sound alpha beta v ab"
    unfolding v_def ab_def by (rule child) (rule Cons.prems)
  have sbm': "score bm' = max (score bm) ab"
    by (auto simp add: bm'_def ab_def max_def)
  have sbmF': "score bmF' = max (score bmF) v"
    by (auto simp add: bmF'_def v_def max_def)
  have unfoldP: "score (prunedMaximize S p (cell # cells) b alpha beta bm) =
    (if beta \<le> max alpha (score bm') then score bm' else R)"
    by (simp add: cell Let_def bm'_def R_def)
  have unfoldF: "score (fullMaximize F p (cell # cells) b bmF) = V"
    by (simp add: cell Let_def bmF'_def V_def)
  have Rge: "score bm' \<le> R"
    unfolding R_def by (rule prunedMaximize_ge)
  have Vge: "score bmF' \<le> V"
    unfolding V_def by (rule fullMaximize_ge)
  have IH: "score bmF' \<le> score bm' \<Longrightarrow> \<not> beta \<le> max alpha (score bm') \<Longrightarrow>
            window_sound (max alpha (score bm')) beta V R"
    unfolding R_def V_def by (rule Cons.IH) (auto simp add: not_le)
  note facts = ws sbm' sbmF' Rge Vge Cons.prems
  consider (low) "ab \<le> alpha" | (mid) "alpha < ab" "ab < beta" | (high) "beta \<le> ab"
    by (meson not_le)
  then show ?case
  proof cases
    case low
    with facts have "score bmF' \<le> score bm'" "max alpha (score bm') = alpha"
      by (auto simp add: window_sound_def max_def)
    with IH Cons.prems show ?thesis
      unfolding unfoldP unfoldF by auto
  next
    case mid
    with facts have 1: "score bmF' \<le> score bm'" and 2: "max alpha (score bm') = ab"
      and 3: "score bm' = ab" and 4: "score bmF' = ab"
      by (auto simp add: window_sound_def max_def)
    from IH [OF 1] 2 mid have "window_sound ab beta V R"
      by auto
    with 2 3 4 Rge Vge mid show ?thesis
      unfolding unfoldP unfoldF by (auto simp add: window_sound_def)
  next
    case high
    from ws high have "ab \<le> v"
      by (simp add: window_sound_def)
    moreover have "v \<le> score bmF'"
      by (simp add: sbmF')
    ultimately have abV: "ab \<le> V"
      using Vge by (meson order_trans)
    from Cons.prems high have lt: "alpha < ab" "score bm \<le> ab"
      by (meson order_trans less_imp_le less_le_trans)+
    then have sb: "score bm' = ab"
      by (simp add: sbm' max_absorb2)
    have cut: "beta \<le> max alpha (score bm')"
      by (simp add: sb le_max_iff_disj high)
    from lt high have no: "\<not> ab \<le> alpha" "\<not> ab < beta"
      by (simp_all add: not_le not_less)
    show ?thesis
      unfolding unfoldP unfoldF using cut sb abV no by (simp add: window_sound_def)
  qed
qed


lemma prunedMinimize_sound:
  assumes child: "\<And>b' a bt. a < bt \<Longrightarrow> window_sound a bt (score (F b')) (score (S b' a bt))"
  shows "score bm \<le> score bmF \<Longrightarrow> beta \<le> score bm \<Longrightarrow> alpha < beta \<Longrightarrow>
         window_sound alpha beta (score (fullMinimize F p cells b bmF))
           (score (prunedMinimize S p cells b alpha beta bm))"
proof (induction cells arbitrary: beta bm bmF)
  case Nil
  then show ?case
    by (auto simp add: window_sound_def)
next
  case (Cons cell cells)
  obtain r c where cell: "cell = (r, c)"
    by (cases cell)
  define ab where "ab = score (S (set_cell b r c p) alpha beta)"
  define v where "v = score (F (set_cell b r c p))"
  define bm' where "bm' =
    (if score ((S (set_cell b r c p) alpha beta)\<lparr>row := Some r, col := Some c\<rparr>) < score bm
     then (S (set_cell b r c p) alpha beta)\<lparr>row := Some r, col := Some c\<rparr> else bm)"
  define bmF' where "bmF' =
    (if score ((F (set_cell b r c p))\<lparr>row := Some r, col := Some c\<rparr>) < score bmF
     then (F (set_cell b r c p))\<lparr>row := Some r, col := Some c\<rparr> else bmF)"
  define R where "R = score (prunedMinimize S p cells b alpha (min beta (score bm')) bm')"
  define V where "V = score (fullMinimize F p cells b bmF')"
  have ws: "window_sound alpha beta v ab"
    unfolding v_def ab_def by (rule child) (rule Cons.prems)
  have sbm': "score bm' = min (score bm) ab"
    by (auto simp add: bm'_def ab_def min_def)
  have sbmF': "score bmF' = min (score bmF) v"
    by (auto simp add: bmF'_def v_def min_def)
  have unfoldP: "score (prunedMinimize S p (cell # cells) b alpha beta bm) =
    (if min beta (score bm') \<le> alpha then score bm' else R)"
    by (simp add: cell Let_def bm'_def R_def)
  have unfoldF: "score (fullMinimize F p (cell # cells) b bmF) = V"
    by (simp add: cell Let_def bmF'_def V_def)
  have Rle: "R \<le> score bm'"
    unfolding R_def by (rule prunedMinimize_le)
  have Vle: "V \<le> score bmF'"
    unfolding V_def by (rule fullMinimize_le)
  have IH: "score bm' \<le> score bmF' \<Longrightarrow> \<not> min beta (score bm') \<le> alpha \<Longrightarrow>
            window_sound alpha (min beta (score bm')) V R"
    unfolding R_def V_def by (rule Cons.IH) (auto simp add: not_le)
  note facts = ws sbm' sbmF' Rle Vle Cons.prems
  consider (high) "beta \<le> ab" | (mid) "alpha < ab" "ab < beta" | (low) "ab \<le> alpha"
    by (meson not_le)
  then show ?case
  proof cases
    case high
    with facts have "score bm' \<le> score bmF'" "min beta (score bm') = beta"
      by (auto simp add: window_sound_def min_def)
    with IH Cons.prems show ?thesis
      unfolding unfoldP unfoldF by auto
  next
    case mid
    with facts have 1: "score bm' \<le> score bmF'" and 2: "min beta (score bm') = ab"
      and 3: "score bm' = ab" and 4: "score bmF' = ab"
      by (auto simp add: window_sound_def min_def)
    from IH [OF 1] 2 mid have "window_sound alpha ab V R"
      by auto
    with 2 3 4 Rle Vle mid show ?thesis
      unfolding unfoldP unfoldF by (auto simp add: window_sound_def)
  next
    case low
    from ws low have "v \<le> ab"
      by (simp add: window_sound_def)
    moreover have "score bmF' \<le> v"
      by (simp add: sbmF')
    ultimately have Vab: "V \<le> ab"
      using Vle by (meson order_trans)
    from Cons.prems low have lt: "ab < beta" "ab \<le> score bm"
      by (meson order_trans less_imp_le le_less_trans)+
    then have sb: "score bm' = ab"
      by (simp add: sbm' min_absorb2)
    have cut: "min beta (score bm') \<le> alpha"
      by (simp add: sb min_le_iff_disj low)
    from lt low have no: "\<not> beta \<le> ab" "\<not> alpha < ab"
      by (simp_all add: not_le not_less)
    show ?thesis
      unfolding unfoldP unfoldF using cut sb Vab no by (simp add: window_sound_def)
  qed
qed

lemma fst_minimax_unfold:
  "fst (minimax g b mx alpha beta depth) =
     (if depth = 0 \<or> isGameOver b \<or> length (getAvailableBoards b) = 0
      then \<lparr>row = None, col = None, score = Fin (evaluateBoard g b)\<rparr>
      else if mx
      then prunedMaximize (\<lambda>b' a bt. fst (minimax g b' False a bt (depth - 1)))
             (PLAYER_CURRENT g) (getAvailableBoards b) b alpha beta
             \<lparr>row = None, col = None, score = NegInfinity\<rparr>
      else prunedMinimize (\<lambda>b' a bt. fst (minimax g b' True a bt (depth - 1)))
             (PLAYER_OPPONENT g) (getAvailableBoards b) b alpha beta
             \<lparr>row = None, col = None, score = Infinity\<rparr>)"
  by (simp add: minimax.simps [of g b mx alpha beta depth] maximizeLoop_pruned
      minimizeLoop_pruned minimax_board cells_empty_available)

lemma NegInfinity_le [simp]: "NegInfinity \<le> x"
  by simp

lemma le_Infinity [simp]: "x \<le> Infinity"
  by (cases x) simp_all

lemma minimax_sound:
  "alpha < beta \<Longrightarrow>
   window_sound alpha beta (score (minimax_full g b mx depth))
     (score (fst (minimax g b mx alpha beta depth)))"
proof (induction depth arbitrary: b mx alpha beta)
  case 0
  show ?case
    by (simp add: fst_minimax_unfold minimax_full.simps window_sound_def)
next
  case (Suc d)
  show ?case
  proof (cases "isGameOver b \<or> length (getAvailableBoards b) = 0")
    case True
    then show ?thesis
      by (auto simp add: fst_minimax_unfold minimax_full.simps window_sound_def)
  next
    case False
    show ?thesis
    proof (cases mx)
      case True
      have "window_sound alpha beta
              (score (fullMaximize (\<lambda>b'. minimax_full g b' False d) (PLAYER_CURRENT g)
                 (getAvailableBoards b) b \<lparr>row = None, col = None, score = NegInfinity\<rparr>))
              (score (prunedMaximize (\<lambda>b' a bt. fst (minimax g b' False a bt d))
                 (PLAYER_CURRENT g) (getAvailableBoards b) b alpha beta
                 \<lparr>row = None, col = None, score = NegInfinity\<rparr>))"
        by (rule prunedMaximize_sound) (simp_all add: Suc.IH Suc.prems)
      with False True show ?thesis
        by (simp add: fst_minimax_unfold [where depth = "Suc d"]
            minimax_full.simps [where depth = "Suc d"])
    next
      case mn: False
      have "window_sound alpha beta
              (score (fullMinimize (\<lambda>b'. minimax_full g b' True d) (PLAYER_OPPONENT g)
                 (getAvailableBoards b) b \<lparr>row = None, col = None, score = Infinity\<rparr>))
              (score (prunedMinimize (\<lambda>b' a bt. fst (minimax g b' True a bt d))
                 (PLAYER_OPPONENT g) (getAvailableBoards b) b alpha beta
                 \<lparr>row = None, col = None, score = Infinity\<rparr>))"
        by (rule prunedMinimize_sound) (simp_all add: Suc.IH Suc.prems)
      with False mn show ?thesis
        by (simp add: fst_minimax_unfold [where depth = "Suc d"]
            minimax_full.simps [where depth = "Suc d"])
    qed
  qed
qed

lemma bestMove_eqI:
  "score x = score y \<Longrightarrow>
   x\<lparr>row := rr, col := cc\<rparr> = (y\<lparr>row := rr, col := cc\<rparr> :: bestMoveProps)"
  by (cases x, cases y) simp

lemma less_Infinity: "x < Infinity \<longleftrightarrow> x \<noteq> Infinity"
  by (cases x) (simp_all add: less_number_def)

lemma NegInfinity_less: "NegInfinity < x \<longleftrightarrow> x \<noteq> NegInfinity"
  by (cases x) (simp_all add: less_number_def)

lemma not_Infinity_less [simp]: "\<not> Infinity < x"
  by (simp add: not_less)

lemma not_less_NegInfinity [simp]: "\<not> x < NegInfinity"
  by (simp add: not_less)

lemma fullMaximize_top:
  "score bm = Infinity \<Longrightarrow> fullMaximize F p cells b bm = bm"
proof (induction cells)
  case Nil
  show ?case by simp
next
  case (Cons cell cells)
  obtain r c where cell: "cell = (r, c)"
    by (cases cell)
  from Cons show ?case
    by (simp add: cell Let_def)
qed

lemma fullMinimize_bot:
  "score bm = NegInfinity \<Longrightarrow> fullMinimize F p cells b bm = bm"
proof (induction cells)
  case Nil
  show ?case by simp
next
  case (Cons cell cells)
  obtain r c where cell: "cell = (r, c)"
    by (cases cell)
  from Cons show ?case
    by (simp add: cell Let_def)
qed

lemma prunedMaximize_root:
  assumes child: "\<And>b' a bt. a < bt \<Longrightarrow> window_sound a bt (score (F b')) (score (S b' a bt))"
  shows "prunedMaximize S p cells b (score bm) Infinity bm = fullMaximize F p cells b bm"
proof (induction cells arbitrary: bm)
  case Nil
  show ?case by simp
next
  case (Cons cell cells)
  obtain r c where cell: "cell = (r, c)"
    by (cases cell)
  define ab where "ab = score (S (set_cell b r c p) (score bm) Infinity)"
  define v where "v = score (F (set_cell b r c p))"
  define cm where "cm = (S (set_cell b r c p) (score bm) Infinity)\<lparr>row := Some r, col := Some c\<rparr>"
  define cmF where "cmF = (F (set_cell b r c p))\<lparr>row := Some r, col := Some c\<rparr>"
  have scm: "score cm = ab" "score cmF = v"
    by (simp_all add: cm_def cmF_def ab_def v_def)
  have unfoldP: "prunedMaximize S p (cell # cells) b (score bm) Infinity bm =
    (let bm' = (if score bm < ab then cm else bm)
     in if Infinity \<le> max (score bm) (score bm') then bm'
        else prunedMaximize S p cells b (max (score bm) (score bm')) Infinity bm')"
    by (simp add: cell Let_def cm_def ab_def)
  have unfoldF: "fullMaximize F p (cell # cells) b bm =
    fullMaximize F p cells b (if score bm < v then cmF else bm)"
    by (simp add: cell Let_def cmF_def v_def)
  show ?case
  proof (cases "score bm = Infinity")
    case True
    then have "\<not> score bm < ab" "\<not> score bm < v"
      by (simp_all add: not_less)
    with True show ?thesis
      unfolding unfoldP unfoldF by (simp add: fullMaximize_top)
  next
    case False
    then have "score bm < Infinity"
      by (simp add: less_Infinity)
    then have ws: "window_sound (score bm) Infinity v ab"
      unfolding v_def ab_def by (rule child)
    show ?thesis
    proof (cases "score bm < ab")
      case up: True
      have "ab = v"
      proof (cases "ab = Infinity")
        case True
        with ws have "Infinity \<le> v"
          by (simp add: window_sound_def)
        with True show ?thesis
          by (cases v) simp_all
      next
        case False
        with ws up show ?thesis
          by (simp add: window_sound_def less_Infinity)
      qed
      then have same: "cm = cmF"
        unfolding cm_def cmF_def ab_def v_def by (rule bestMove_eqI)
      have m: "max (score bm) (score cmF) = score cmF"
        using up \<open>ab = v\<close> scm by (simp add: max_def less_imp_le)
      show ?thesis
        unfolding unfoldP unfoldF
        using up \<open>ab = v\<close> same m Cons.IH [of cmF]
        by (cases "score cmF") (simp_all add: Let_def fullMaximize_top)
    next
      case keep: False
      with ws have "\<not> score bm < v"
        by (auto simp add: window_sound_def not_less intro: order_trans)
      with keep False show ?thesis
        unfolding unfoldP unfoldF using Cons.IH [of bm]
        by (cases "score bm") (simp_all add: Let_def)
    qed
  qed
qed


lemma prunedMinimize_root:
  assumes child: "\<And>b' a bt. a < bt \<Longrightarrow> window_sound a bt (score (F b')) (score (S b' a bt))"
  shows "prunedMinimize S p cells b NegInfinity (score bm) bm = fullMinimize F p cells b bm"
proof (induction cells arbitrary: bm)
  case Nil
  show ?case by simp
next
  case (Cons cell cells)
  obtain r c where cell: "cell = (r, c)"
    by (cases cell)
  define ab where "ab = score (S (set_cell b r c p) NegInfinity (score bm))"
  define v where "v = score (F (set_cell b r c p))"
  define cm where "cm = (S (set_cell b r c p) NegInfinity (score bm))\<lparr>row := Some r, col := Some c\<rparr>"
  define cmF where "cmF = (F (set_cell b r c p))\<lparr>row := Some r, col := Some c\<rparr>"
  have scm: "score cm = ab" "score cmF = v"
    by (simp_all add: cm_def cmF_def ab_def v_def)
  have unfoldP: "prunedMinimize S p (cell # cells) b NegInfinity (score bm) bm =
    (let bm' = (if ab < score bm then cm else bm)
     in if min (score bm) (score bm') \<le> NegInfinity then bm'
        else prunedMinimize S p cells b NegInfinity (min (score bm) (score bm')) bm')"
    by (simp add: cell Let_def cm_def ab_def)
  have unfoldF: "fullMinimize F p (cell # cells) b bm =
    fullMinimize F p cells b (if v < score bm then cmF else bm)"
    by (simp add: cell Let_def cmF_def v_def)
  show ?case
  proof (cases "score bm = NegInfinity")
    case True
    then have "\<not> ab < score bm" "\<not> v < score bm"
      by simp_all
    with True show ?thesis
      unfolding unfoldP unfoldF by (simp add: fullMinimize_bot)
  next
    case False
    then have "NegInfinity < score bm"
      by (simp add: NegInfinity_less)
    then have ws: "window_sound NegInfinity (score bm) v ab"
      unfolding v_def ab_def by (rule child)
    show ?thesis
    proof (cases "ab < score bm")
      case down: True
      have "ab = v"
      proof (cases "ab = NegInfinity")
        case True
        with ws have "v \<le> NegInfinity"
          by (simp add: window_sound_def)
        with True show ?thesis
          by (cases v) simp_all
      next
        case False
        with ws down show ?thesis
          by (simp add: window_sound_def NegInfinity_less)
      qed
      then have same: "cm = cmF"
        unfolding cm_def cmF_def ab_def v_def by (rule bestMove_eqI)
      have m: "min (score bm) (score cmF) = score cmF"
        using down \<open>ab = v\<close> scm by (simp add: min_absorb2 less_imp_le)
      show ?thesis
        unfolding unfoldP unfoldF
        using down \<open>ab = v\<close> same m Cons.IH [of cmF]
        by (cases "score cmF") (simp_all add: Let_def fullMinimize_bot)
    next
      case keep: False
      with ws have "\<not> v < score bm"
        by (auto simp add: window_sound_def not_less intro: order_trans)
      with keep False show ?thesis
        unfolding unfoldP unfoldF using Cons.IH [of bm]
        by (cases "score bm") (simp_all add: Let_def)
    qed
  qed
qed

lemma minimax_root:
  "fst (minimax g b mx NegInfinity Infinity depth) = minimax_full g b mx depth"
proof -
  have child: "\<And>m b' a bt. a < bt \<Longrightarrow>
    window_sound a bt (score (minimax_full g b' m (depth - 1)))
      (score (fst (minimax g b' m a bt (depth - 1))))"
    by (rule minimax_sound)
  have "prunedMaximize (\<lambda>b' a bt. fst (minimax g b' False a bt (depth - 1))) p cells b
          (score \<lparr>row = None, col = None, score = NegInfinity\<rparr>) Infinity
          \<lparr>row = None, col = None, score = NegInfinity\<rparr> =
        fullMaximize (\<lambda>b'. minimax_full g b' False (depth - 1)) p cells b
          \<lparr>row = None, col = None, score = NegInfinity\<rparr>" for p cells
    by (rule prunedMaximize_root) (rule child)
  moreover have "prunedMinimize (\<lambda>b' a bt. fst (minimax g b' True a bt (depth - 1))) p cells b
          NegInfinity (score \<lparr>row = None, col = None, score = Infinity\<rparr>)
          \<lparr>row = None, col = None, score = Infinity\<rparr> =
        fullMinimize (\<lambda>b'. minimax_full g b' True (depth - 1)) p cells b
          \<lparr>row = None, col = None, score = Infinity\<rparr>" for p cells
    by (rule prunedMinimize_root) (rule child)
  ultimately show ?thesis
    by (simp add: fst_minimax_unfold [of g b mx NegInfinity Infinity depth]
        minimax_full.simps [of g b mx depth])
qed

text \<open>
  C3. For every board, depth and marker assignment, the search called with
  \<open>alpha = -Infinity\<close> and \<open>beta = Infinity\<close> returns the same row, column and
  score as the unpruned traversal of the same board at the same depth.
\<close>

theorem alpha_beta_equals_full_traversal:
  "fst (minimax g b maximizingPlayer NegInfinity Infinity depth) =
   minimax_full g b maximizingPlayer depth"
  by (rule minimax_root)

section \<open>First-found tie-break\<close>

lemma first_bestI:
  assumes "cells = pre @ cell # post"
    and "\<And>x. x \<in> set pre \<Longrightarrow> (if mx then val x < val cell else val cell < val x)"
    and "\<And>x. x \<in> set post \<Longrightarrow> (if mx then val x \<le> val cell else val cell \<le> val x)"
  shows "first_best mx val cells cell"
proof -
  have "cell \<notin> set pre"
    using assms(2) [of cell] by (auto split: if_splits)
  then have tw: "takeWhile (\<lambda>x. x \<noteq> cell) cells = pre"
    and dw: "dropWhile (\<lambda>x. x \<noteq> cell) cells = cell # post"
    unfolding assms(1) by (induction pre) auto
  show ?thesis
    unfolding first_best_def tw dw using assms
    by (auto simp add: list_all_iff)
qed

lemma fullMaximize_first:
  fixes F p b
  defines "val \<equiv> \<lambda>cell. score (F (set_cell b (fst cell) (snd cell) p))"
  shows "(fullMaximize F p cells b bm = bm \<and> (\<forall>x \<in> set cells. val x \<le> score bm)) \<or>
         (\<exists>pre cell post. cells = pre @ cell # post \<and>
            fullMaximize F p cells b bm =
              (F (set_cell b (fst cell) (snd cell) p))\<lparr>row := Some (fst cell), col := Some (snd cell)\<rparr> \<and>
            score bm < val cell \<and>
            (\<forall>x \<in> set pre. val x < val cell) \<and> (\<forall>x \<in> set post. val x \<le> val cell))"
proof (induction cells arbitrary: bm)
  case Nil
  show ?case by simp
next
  case (Cons cell0 cells)
  obtain r c where cell0: "cell0 = (r, c)"
    by (cases cell0)
  define cm where "cm = (F (set_cell b r c p))\<lparr>row := Some r, col := Some c\<rparr>"
  define bm' where "bm' = (if score bm < score cm then cm else bm)"
  have scm: "score cm = val cell0"
    by (simp add: cm_def val_def cell0)
  have unfold: "fullMaximize F p (cell0 # cells) b bm = fullMaximize F p cells b bm'"
    by (simp add: cell0 Let_def cm_def bm'_def)
  have mono: "score bm \<le> score bm'" "val cell0 \<le> score bm'"
    by (auto simp add: bm'_def scm not_less intro: less_imp_le)
  from Cons.IH [of bm'] show ?case
  proof (elim disjE conjE exE)
    assume same: "fullMaximize F p cells b bm' = bm'"
      and below: "\<forall>x \<in> set cells. val x \<le> score bm'"
    show ?thesis
    proof (cases "score bm < score cm")
      case True
      then have "bm' = cm"
        by (simp add: bm'_def)
      with True same below scm have
        "cell0 # cells = [] @ cell0 # cells \<and>
         fullMaximize F p (cell0 # cells) b bm =
           (F (set_cell b (fst cell0) (snd cell0) p))\<lparr>row := Some (fst cell0), col := Some (snd cell0)\<rparr> \<and>
         score bm < val cell0 \<and> (\<forall>x \<in> set []. val x < val cell0) \<and>
         (\<forall>x \<in> set cells. val x \<le> val cell0)"
        by (simp add: unfold cm_def cell0)
      then show ?thesis
        by blast
    next
      case False
      then have "bm' = bm"
        by (simp add: bm'_def)
      with False same below scm show ?thesis
        by (simp add: unfold not_less)
    qed
  next
    fix pre cell post
    assume dec: "cells = pre @ cell # post"
      and res: "fullMaximize F p cells b bm' =
        (F (set_cell b (fst cell) (snd cell) p))\<lparr>row := Some (fst cell), col := Some (snd cell)\<rparr>"
      and above: "score bm' < val cell"
      and pre: "\<forall>x \<in> set pre. val x < val cell"
      and post: "\<forall>x \<in> set post. val x \<le> val cell"
    from mono above have "score bm < val cell" "val cell0 < val cell"
      by (meson le_less_trans)+
    moreover have "fullMaximize F p (cell0 # cells) b bm =
         (F (set_cell b (fst cell) (snd cell) p))\<lparr>row := Some (fst cell), col := Some (snd cell)\<rparr>"
      using res by (simp only: unfold)
    moreover have "cell0 # cells = (cell0 # pre) @ cell # post"
      using dec by simp
    ultimately have
      "cell0 # cells = (cell0 # pre) @ cell # post \<and>
       fullMaximize F p (cell0 # cells) b bm =
         (F (set_cell b (fst cell) (snd cell) p))\<lparr>row := Some (fst cell), col := Some (snd cell)\<rparr> \<and>
       score bm < val cell \<and> (\<forall>x \<in> set (cell0 # pre). val x < val cell) \<and>
       (\<forall>x \<in> set post. val x \<le> val cell)"
      using pre post by simp
    then show ?thesis
      by blast
  qed
qed

lemma fullMinimize_first:
  fixes F p b
  defines "val \<equiv> \<lambda>cell. score (F (set_cell b (fst cell) (snd cell) p))"
  shows "(fullMinimize F p cells b bm = bm \<and> (\<forall>x \<in> set cells. score bm \<le> val x)) \<or>
         (\<exists>pre cell post. cells = pre @ cell # post \<and>
            fullMinimize F p cells b bm =
              (F (set_cell b (fst cell) (snd cell) p))\<lparr>row := Some (fst cell), col := Some (snd cell)\<rparr> \<and>
            val cell < score bm \<and>
            (\<forall>x \<in> set pre. val cell < val x) \<and> (\<forall>x \<in> set post. val cell \<le> val x))"
proof (induction cells arbitrary: bm)
  case Nil
  show ?case by simp
next
  case (Cons cell0 cells)
  obtain r c where cell0: "cell0 = (r, c)"
    by (cases cell0)
  define cm where "cm = (F (set_cell b r c p))\<lparr>row := Some r, col := Some c\<rparr>"
  define bm' where "bm' = (if score cm < score bm then cm else bm)"
  have scm: "score cm = val cell0"
    by (simp add: cm_def val_def cell0)
  have unfold: "fullMinimize F p (cell0 # cells) b bm = fullMinimize F p cells b bm'"
    by (simp add: cell0 Let_def cm_def bm'_def)
  have mono: "score bm' \<le> score bm" "score bm' \<le> val cell0"
    by (auto simp add: bm'_def scm not_less intro: less_imp_le)
  from Cons.IH [of bm'] show ?case
  proof (elim disjE conjE exE)
    assume same: "fullMinimize F p cells b bm' = bm'"
      and below: "\<forall>x \<in> set cells. score bm' \<le> val x"
    show ?thesis
    proof (cases "score cm < score bm")
      case True
      then have "bm' = cm"
        by (simp add: bm'_def)
      with True same below scm have
        "cell0 # cells = [] @ cell0 # cells \<and>
         fullMinimize F p (cell0 # cells) b bm =
           (F (set_cell b (fst cell0) (snd cell0) p))\<lparr>row := Some (fst cell0), col := Some (snd cell0)\<rparr> \<and>
         val cell0 < score bm \<and> (\<forall>x \<in> set []. val cell0 < val x) \<and>
         (\<forall>x \<in> set cells. val cell0 \<le> val x)"
        by (simp add: unfold cm_def cell0)
      then show ?thesis
        by blast
    next
      case False
      then have "bm' = bm"
        by (simp add: bm'_def)
      with False same below scm show ?thesis
        by (simp add: unfold not_less)
    qed
  next
    fix pre cell post
    assume dec: "cells = pre @ cell # post"
      and res: "fullMinimize F p cells b bm' =
        (F (set_cell b (fst cell) (snd cell) p))\<lparr>row := Some (fst cell), col := Some (snd cell)\<rparr>"
      and above: "val cell < score bm'"
      and pre: "\<forall>x \<in> set pre. val cell < val x"
      and post: "\<forall>x \<in> set post. val cell \<le> val x"
    from mono above have "val cell < score bm" "val cell < val cell0"
      by (meson less_le_trans)+
    moreover have "fullMinimize F p (cell0 # cells) b bm =
         (F (set_cell b (fst cell) (snd cell) p))\<lparr>row := Some (fst cell), col := Some (snd cell)\<rparr>"
      using res by (simp only: unfold)
    moreover have "cell0 # cells = (cell0 # pre) @ cell # post"
      using dec by simp
    ultimately have
      "cell0 # cells = (cell0 # pre) @ cell # post \<and>
       fullMinimize F p (cell0 # cells) b bm =
         (F (set_cell b (fst cell) (snd cell) p))\<lparr>row := Some (fst cell), col := Some (snd cell)\<rparr> \<and>
       val cell < score bm \<and> (\<forall>x \<in> set (cell0 # pre). val cell < val x) \<and>
       (\<forall>x \<in> set post. val cell \<le> val x)"
      using pre post by simp
    then show ?thesis
      by blast
  qed
qed


lemma getAvailableBoards_row_major:
  assumes "grid3 b"
  shows "getAvailableBoards b = filter (\<lambda>(r, c). b ! r ! c = EMPTY_CELL) row_major"
proof -
  from assms obtain r0 r1 r2 where b: "b = [r0, r1, r2]"
    and len: "length r0 = 3" "length r1 = 3" "length r2 = 3"
    by (auto simp add: grid3_def length_Suc_conv numeral_3_eq_3)
  from len obtain a0 a1 a2 where r0: "r0 = [a0, a1, a2]"
    by (auto simp add: length_Suc_conv numeral_3_eq_3)
  from len obtain b0 b1 b2 where r1: "r1 = [b0, b1, b2]"
    by (auto simp add: length_Suc_conv numeral_3_eq_3)
  from len obtain c0 c1 c2 where r2: "r2 = [c0, c1, c2]"
    by (auto simp add: length_Suc_conv numeral_3_eq_3)
  show ?thesis
    by (simp add: b r0 r1 r2 getAvailableBoards_def row_major_def)
qed

lemma prunedMaximize_keeps_move:
  assumes fin: "\<And>b' a bt. \<exists>x. score (S b' a bt) = Fin x"
  shows "move_in C bm \<Longrightarrow> set cells \<subseteq> C \<Longrightarrow>
         move_in C (prunedMaximize S p cells b alpha beta bm)"
proof (induction cells arbitrary: alpha bm)
  case Nil
  then show ?case by simp
next
  case (Cons cell cells)
  obtain r c where cell: "cell = (r, c)"
    by (cases cell)
  define cm where "cm = (S (set_cell b r c p) alpha beta)\<lparr>row := Some r, col := Some c\<rparr>"
  define bm' where "bm' = (if score cm > score bm then cm else bm)"
  have "move_in C cm"
    using fin [of "set_cell b r c p" alpha beta] Cons.prems(2)
    by (auto simp add: move_in_def cm_def cell intro!: bexI [of _ "(r, c)"])
  with Cons.prems(1) have good: "move_in C bm'"
    by (simp add: bm'_def)
  have unfold: "prunedMaximize S p (cell # cells) b alpha beta bm =
    (if beta \<le> max alpha (score bm') then bm'
     else prunedMaximize S p cells b (max alpha (score bm')) beta bm')"
    by (simp add: cell Let_def cm_def bm'_def)
  from Cons.prems(2) have "set cells \<subseteq> C"
    by simp
  with good Cons.IH [of bm'] show ?case
    unfolding unfold by simp
qed

lemma prunedMinimize_keeps_move:
  assumes fin: "\<And>b' a bt. \<exists>x. score (S b' a bt) = Fin x"
  shows "move_in C bm \<Longrightarrow> set cells \<subseteq> C \<Longrightarrow>
         move_in C (prunedMinimize S p cells b alpha beta bm)"
proof (induction cells arbitrary: beta bm)
  case Nil
  then show ?case by simp
next
  case (Cons cell cells)
  obtain r c where cell: "cell = (r, c)"
    by (cases cell)
  define cm where "cm = (S (set_cell b r c p) alpha beta)\<lparr>row := Some r, col := Some c\<rparr>"
  define bm' where "bm' = (if score cm < score bm then cm else bm)"
  have "move_in C cm"
    using fin [of "set_cell b r c p" alpha beta] Cons.prems(2)
    by (auto simp add: move_in_def cm_def cell intro!: bexI [of _ "(r, c)"])
  with Cons.prems(1) have good: "move_in C bm'"
    by (simp add: bm'_def)
  have unfold: "prunedMinimize S p (cell # cells) b alpha beta bm =
    (if min beta (score bm') \<le> alpha then bm'
     else prunedMinimize S p cells b alpha (min beta (score bm')) bm')"
    by (simp add: cell Let_def cm_def bm'_def)
  from Cons.prems(2) have "set cells \<subseteq> C"
    by simp
  with good Cons.IH [of bm'] show ?case
    unfolding unfold by simp
qed

lemma prunedMaximize_finds_move:
  assumes fin: "\<And>b' a bt. \<exists>x. score (S b' a bt) = Fin x"
    and "cells \<noteq> []" "score bm = NegInfinity"
  shows "move_in (set cells) (prunedMaximize S p cells b alpha beta bm)"
proof -
  from assms(2) obtain r c rest where cells: "cells = (r, c) # rest"
    by (cases cells) auto
  define cm where "cm = (S (set_cell b r c p) alpha beta)\<lparr>row := Some r, col := Some c\<rparr>"
  have good: "move_in (set cells) cm"
    using fin [of "set_cell b r c p" alpha beta] by (auto simp add: move_in_def cm_def cells)
  have up: "score bm < score cm"
    using fin [of "set_cell b r c p" alpha beta] assms(3)
    by (auto simp add: cm_def less_number_def)
  have unfold: "prunedMaximize S p cells b alpha beta bm =
    (if beta \<le> max alpha (score cm) then cm
     else prunedMaximize S p rest b (max alpha (score cm)) beta cm)"
    using up by (simp add: cells Let_def cm_def)
  have "move_in (set cells) (prunedMaximize S p rest b (max alpha (score cm)) beta cm)"
    by (rule prunedMaximize_keeps_move [OF fin good]) (auto simp add: cells)
  with good show ?thesis
    unfolding unfold by simp
qed

lemma prunedMinimize_finds_move:
  assumes fin: "\<And>b' a bt. \<exists>x. score (S b' a bt) = Fin x"
    and "cells \<noteq> []" "score bm = Infinity"
  shows "move_in (set cells) (prunedMinimize S p cells b alpha beta bm)"
proof -
  from assms(2) obtain r c rest where cells: "cells = (r, c) # rest"
    by (cases cells) auto
  define cm where "cm = (S (set_cell b r c p) alpha beta)\<lparr>row := Some r, col := Some c\<rparr>"
  have good: "move_in (set cells) cm"
    using fin [of "set_cell b r c p" alpha beta] by (auto simp add: move_in_def cm_def cells)
  have up: "score cm < score bm"
    using fin [of "set_cell b r c p" alpha beta] assms(3)
    by (auto simp add: cm_def less_number_def)
  have unfold: "prunedMinimize S p cells b alpha beta bm =
    (if min beta (score cm) \<le> alpha then cm
     else prunedMinimize S p rest b alpha (min beta (score cm)) cm)"
    using up by (simp add: cells Let_def cm_def)
  have "move_in (set cells) (prunedMinimize S p rest b alpha (min beta (score cm)) cm)"
    by (rule prunedMinimize_keeps_move [OF fin good]) (auto simp add: cells)
  with good show ?thesis
    unfolding unfold by simp
qed

lemma minimax_finite: "\<exists>x. score (fst (minimax g b mx alpha beta depth)) = Fin x"
proof (induction depth arbitrary: b mx alpha beta)
  case 0
  show ?case
    by (simp add: fst_minimax_unfold)
next
  case (Suc d)
  show ?case
  proof (cases "isGameOver b \<or> getAvailableBoards b = []")
    case True
    then show ?thesis
      by (auto simp add: fst_minimax_unfold)
  next
    case False
    then have ne: "getAvailableBoards b \<noteq> []"
      by simp
    have "move_in (set (getAvailableBoards b)) (fst (minimax g b mx alpha beta (Suc d)))"
    proof (cases mx)
      case True
      with False show ?thesis
        by (simp add: fst_minimax_unfold [where depth = "Suc d"])
           (rule prunedMaximize_finds_move [OF Suc.IH ne], simp)
    next
      case mn: False
      with False show ?thesis
        by (simp add: fst_minimax_unfold [where depth = "Suc d"])
           (rule prunedMinimize_finds_move [OF Suc.IH ne], simp)
    qed
    then show ?thesis
      by (auto simp add: move_in_def)
  qed
qed

lemma minimax_finds_move:
  assumes "depth \<noteq> 0" "\<not> isGameOver b" "getAvailableBoards b \<noteq> []"
  shows "move_in (set (getAvailableBoards b)) (fst (minimax g b mx alpha beta depth))"
proof (cases mx)
  case True
  with assms have "fst (minimax g b mx alpha beta depth) =
      prunedMaximize (\<lambda>b' a bt. fst (minimax g b' False a bt (depth - 1)))
        (PLAYER_CURRENT g) (getAvailableBoards b) b alpha beta
        \<lparr>row = None, col = None, score = NegInfinity\<rparr>"
    by (subst fst_minimax_unfold) simp
  then show ?thesis
    by (simp only:) (rule prunedMaximize_finds_move [OF minimax_finite assms(3)], simp)
next
  case False
  with assms have "fst (minimax g b mx alpha beta depth) =
      prunedMinimize (\<lambda>b' a bt. fst (minimax g b' True a bt (depth - 1)))
        (PLAYER_OPPONENT g) (getAvailableBoards b) b alpha beta
        \<lparr>row = None, col = None, score = Infinity\<rparr>"
    by (subst fst_minimax_unfold) simp
  then show ?thesis
    by (simp only:) (rule prunedMinimize_finds_move [OF minimax_finite assms(3)], simp)
qed

lemma child_score_full:
  "child_score g b mx depth cell =
   score (minimax_full g (set_cell b (fst cell) (snd cell)
            (if mx then PLAYER_CURRENT g else PLAYER_OPPONENT g)) (\<not> mx) (depth - 1))"
  by (simp add: child_score_def minimax_root)

lemma minimax_full_finite: "\<exists>x. score (minimax_full g b mx depth) = Fin x"
  using minimax_finite [of g b mx NegInfinity Infinity depth] by (simp add: minimax_root)

lemma root_first_best:
  assumes notbase: "depth \<noteq> 0" "\<not> isGameOver b" "getAvailableBoards b \<noteq> []"
  shows "\<exists>cell. row (fst (minimax g b mx NegInfinity Infinity depth)) = Some (fst cell) \<and>
           col (fst (minimax g b mx NegInfinity Infinity depth)) = Some (snd cell) \<and>
           score (fst (minimax g b mx NegInfinity Infinity depth)) = child_score g b mx depth cell \<and>
           first_best mx (child_score g b mx depth) (getAvailableBoards b) cell"
proof (cases mx)
  case True
  let ?F = "\<lambda>b'. minimax_full g b' False (depth - 1)"
  let ?init = "\<lparr>row = None, col = None, score = NegInfinity\<rparr>"
  let ?cells = "getAvailableBoards b"
  have val: "child_score g b mx depth = (\<lambda>cell. score (?F (set_cell b (fst cell) (snd cell) (PLAYER_CURRENT g))))"
    by (rule ext) (simp add: child_score_full True)
  have res: "fst (minimax g b mx NegInfinity Infinity depth) =
             fullMaximize ?F (PLAYER_CURRENT g) ?cells b ?init"
    using notbase True unfolding minimax_root by (subst minimax_full.simps) simp
  from notbase(3) obtain x where x: "x \<in> set ?cells"
    by (cases ?cells) auto
  have "\<not> child_score g b mx depth x \<le> score ?init"
    using minimax_full_finite [of g "set_cell b (fst x) (snd x) (PLAYER_CURRENT g)" False "depth - 1"]
    by (auto simp add: val)
  with x fullMaximize_first [of ?F "PLAYER_CURRENT g" ?cells b ?init]
  obtain pre cell post where dec: "?cells = pre @ cell # post"
    and best: "fullMaximize ?F (PLAYER_CURRENT g) ?cells b ?init =
      (?F (set_cell b (fst cell) (snd cell) (PLAYER_CURRENT g)))\<lparr>row := Some (fst cell), col := Some (snd cell)\<rparr>"
    and pre: "\<forall>x \<in> set pre. child_score g b mx depth x < child_score g b mx depth cell"
    and post: "\<forall>x \<in> set post. child_score g b mx depth x \<le> child_score g b mx depth cell"
    unfolding val by blast
  have "first_best mx (child_score g b mx depth) ?cells cell"
    using dec pre post True by (intro first_bestI [of _ pre cell post]) auto
  with best show ?thesis
    unfolding res by (intro exI [of _ cell]) (simp add: val)
next
  case False
  let ?F = "\<lambda>b'. minimax_full g b' True (depth - 1)"
  let ?init = "\<lparr>row = None, col = None, score = Infinity\<rparr>"
  let ?cells = "getAvailableBoards b"
  have val: "child_score g b mx depth = (\<lambda>cell. score (?F (set_cell b (fst cell) (snd cell) (PLAYER_OPPONENT g))))"
    by (rule ext) (simp add: child_score_full False)
  have res: "fst (minimax g b mx NegInfinity Infinity depth) =
             fullMinimize ?F (PLAYER_OPPONENT g) ?cells b ?init"
    using notbase False unfolding minimax_root by (subst minimax_full.simps) simp
  from notbase(3) obtain x where x: "x \<in> set ?cells"
    by (cases ?cells) auto
  have "\<not> score ?init \<le> child_score g b mx depth x"
    using minimax_full_finite [of g "set_cell b (fst x) (snd x) (PLAYER_OPPONENT g)" True "depth - 1"]
    by (auto simp add: val)
  with x fullMinimize_first [of ?F "PLAYER_OPPONENT g" ?cells b ?init]
  obtain pre cell post where dec: "?cells = pre @ cell # post"
    and best: "fullMinimize ?F (PLAYER_OPPONENT g) ?cells b ?init =
      (?F (set_cell b (fst cell) (snd cell) (PLAYER_OPPONENT g)))\<lparr>row := Some (fst cell), col := Some (snd cell)\<rparr>"
    and pre: "\<forall>x \<in> set pre. child_score g b mx depth cell < child_score g b mx depth x"
    and post: "\<forall>x \<in> set post. child_score g b mx depth cell \<le> child_score g b mx depth x"
    unfolding val by blast
  have "first_best mx (child_score g b mx depth) ?cells cell"
    using dec pre post False by (intro first_bestI [of _ pre cell post]) auto
  with best show ?thesis
    unfolding res by (intro exI [of _ cell]) (simp add: val)
qed

lemma board_tie_cells: "getAvailableBoards board_tie = [(1, 2), (2, 0), (2, 2)]"
  by code_simp

lemma board_tie_open: "isGameOver board_tie = False"
  by code_simp

lemma board_tie_set:
  "set_cell board_tie 1 2 ''X'' = [[''X'', ''O'', ''X''], [''O'', ''X'', ''X''], [''-'', ''O'', ''-'']]"
  "set_cell board_tie 2 0 ''X'' = [[''X'', ''O'', ''X''], [''O'', ''X'', ''-''], [''X'', ''O'', ''-'']]"
  "set_cell board_tie 2 2 ''X'' = [[''X'', ''O'', ''X''], [''O'', ''X'', ''-''], [''-'', ''O'', ''X'']]"
  by code_simp+

lemma globals_ai_x_markers:
  "PLAYER_CURRENT globals_ai_x = ''X''" "PLAYER_OPPONENT globals_ai_x = ''O''"
  by (simp_all add: globals_ai_x_def)

lemma board_tie_child_1_2:
  "fst (minimax globals_ai_x [[''X'', ''O'', ''X''], [''O'', ''X'', ''X''], [''-'', ''O'', ''-'']]
     False NegInfinity Infinity 1) = \<lparr>row = Some 2, col = Some 0, score = Fin 254\<rparr>"
proof -
  let ?b = "[[''X'', ''O'', ''X''], [''O'', ''X'', ''X''], [''-'', ''O'', ''-'']]"
  have cells: "getAvailableBoards ?b = [(2, 0), (2, 2)]"
    by code_simp
  have opn: "isGameOver ?b = False"
    by code_simp
  have s1: "set_cell ?b 2 0 ''O'' =
      [[''X'', ''O'', ''X''], [''O'', ''X'', ''X''], [''O'', ''O'', ''-'']]"
    by code_simp
  have s2: "set_cell ?b 2 2 ''O'' =
      [[''X'', ''O'', ''X''], [''O'', ''X'', ''X''], [''-'', ''O'', ''O'']]"
    by code_simp
  have e1: "evaluateBoard globals_ai_x
      [[''X'', ''O'', ''X''], [''O'', ''X'', ''X''], [''O'', ''O'', ''-'']] = 254"
    by code_simp
  have e2: "evaluateBoard globals_ai_x
      [[''X'', ''O'', ''X''], [''O'', ''X'', ''X''], [''-'', ''O'', ''O'']] = 335"
    by code_simp
  have l1: "fst (minimax globals_ai_x
      [[''X'', ''O'', ''X''], [''O'', ''X'', ''X''], [''O'', ''O'', ''-'']] True a bt 0) =
      \<lparr>row = None, col = None, score = Fin 254\<rparr>" for a bt
    by (subst fst_minimax_unfold) (simp add: e1)
  have l2: "fst (minimax globals_ai_x
      [[''X'', ''O'', ''X''], [''O'', ''X'', ''X''], [''-'', ''O'', ''O'']] True a bt 0) =
      \<lparr>row = None, col = None, score = Fin 335\<rparr>" for a bt
    by (subst fst_minimax_unfold) (simp add: e2)
  show ?thesis
    by (subst fst_minimax_unfold)
       (simp add: cells opn globals_ai_x_markers s1 s2 l1 l2 Let_def less_number_def)
qed

lemma board_tie_child_2_0:
  "fst (minimax globals_ai_x [[''X'', ''O'', ''X''], [''O'', ''X'', ''-''], [''X'', ''O'', ''-'']]
     False a bt 1) = \<lparr>row = None, col = None, score = Fin 1272\<rparr>"
proof -
  let ?b = "[[''X'', ''O'', ''X''], [''O'', ''X'', ''-''], [''X'', ''O'', ''-'']]"
  have over: "isGameOver ?b = True"
    by code_simp
  have e: "evaluateBoard globals_ai_x ?b = 1272"
    by code_simp
  show ?thesis
    by (subst fst_minimax_unfold) (simp add: over e)
qed

lemma board_tie_child_2_2:
  "fst (minimax globals_ai_x [[''X'', ''O'', ''X''], [''O'', ''X'', ''-''], [''-'', ''O'', ''X'']]
     False a bt 1) = \<lparr>row = None, col = None, score = Fin 1272\<rparr>"
proof -
  let ?b = "[[''X'', ''O'', ''X''], [''O'', ''X'', ''-''], [''-'', ''O'', ''X'']]"
  have over: "isGameOver ?b = True"
    by code_simp
  have e: "evaluateBoard globals_ai_x ?b = 1272"
    by code_simp
  show ?thesis
    by (subst fst_minimax_unfold) (simp add: over e)
qed

lemma board_tie_scores:
  "child_score globals_ai_x board_tie True 2 (1, 2) = Fin 254"
  "child_score globals_ai_x board_tie True 2 (2, 0) = Fin 1272"
  "child_score globals_ai_x board_tie True 2 (2, 2) = Fin 1272"
proof -
  have d: "(2 :: nat) - 1 = 1"
    by simp
  show "child_score globals_ai_x board_tie True 2 (1, 2) = Fin 254"
    by (simp only: child_score_def fst_conv snd_conv if_True simp_thms d globals_ai_x_markers
        board_tie_set board_tie_child_1_2 bestMoveProps.select_convs)
  show "child_score globals_ai_x board_tie True 2 (2, 0) = Fin 1272"
    by (simp only: child_score_def fst_conv snd_conv if_True simp_thms d globals_ai_x_markers
        board_tie_set board_tie_child_2_0 bestMoveProps.select_convs)
  show "child_score globals_ai_x board_tie True 2 (2, 2) = Fin 1272"
    by (simp only: child_score_def fst_conv snd_conv if_True simp_thms d globals_ai_x_markers
        board_tie_set board_tie_child_2_2 bestMoveProps.select_convs)
qed

lemma board_tie_result:
  "fst (minimax globals_ai_x board_tie True NegInfinity Infinity 2) =
     \<lparr>row = Some 2, col = Some 0, score = Fin 1272\<rparr>"
  by (subst fst_minimax_unfold)
     (simp add: board_tie_cells board_tie_open globals_ai_x_markers
       board_tie_set [unfolded One_nat_def] board_tie_child_1_2 [unfolded One_nat_def]
       board_tie_child_2_0 [unfolded One_nat_def] board_tie_child_2_2 [unfolded One_nat_def]
       Let_def less_number_def)

text \<open>
  C8. On a 3x3 board the empty cells are enumerated in row-major order. Whenever the
  search with the full window has a move to make (positive depth, no winner seen, an
  empty cell), the move it returns is a cell whose resulting position has the best
  score, and it is the first such cell of the enumeration: every cell enumerated before
  it has a strictly worse score (lower when maximizing, higher when minimizing), no cell
  after it has a better one.
\<close>

theorem first_found_tie_break:
  assumes "grid3 b" "depth \<noteq> 0" "\<not> isGameOver b" "getAvailableBoards b \<noteq> []"
  shows "getAvailableBoards b = filter (\<lambda>(r, c). b ! r ! c = EMPTY_CELL) row_major \<and>
         (\<exists>cell. row (fst (minimax g b maximizingPlayer NegInfinity Infinity depth)) = Some (fst cell) \<and>
            col (fst (minimax g b maximizingPlayer NegInfinity Infinity depth)) = Some (snd cell) \<and>
            score (fst (minimax g b maximizingPlayer NegInfinity Infinity depth)) =
              child_score g b maximizingPlayer depth cell \<and>
            first_best maximizingPlayer (child_score g b maximizingPlayer depth)
              (getAvailableBoards b) cell)"
  using assms getAvailableBoards_row_major root_first_best by blast

theorem first_found_tie_break_witness:
  "grid3 board_tie \<and>
   getAvailableBoards board_tie = [(1, 2), (2, 0), (2, 2)] \<and>
   getAvailableBoards board_tie = filter (\<lambda>(r, c). board_tie ! r ! c = EMPTY_CELL) row_major \<and>
   child_score globals_ai_x board_tie True 2 (1, 2) = Fin 254 \<and>
   child_score globals_ai_x board_tie True 2 (2, 0) = Fin 1272 \<and>
   child_score globals_ai_x board_tie True 2 (2, 2) = Fin 1272 \<and>
   row (fst (minimax globals_ai_x board_tie True NegInfinity Infinity 2)) = Some 2 \<and>
   col (fst (minimax globals_ai_x board_tie True NegInfinity Infinity 2)) = Some 0 \<and>
   score (fst (minimax globals_ai_x board_tie True NegInfinity Infinity 2)) =
     child_score globals_ai_x board_tie True 2 (2, 0) \<and>
   first_best True (child_score globals_ai_x board_tie True 2) (getAvailableBoards board_tie) (2, 0)"
proof -
  have grid: "grid3 board_tie"
    by code_simp
  have depth: "(2 :: nat) \<noteq> 0"
    by simp
  have nowinner: "\<not> isGameOver board_tie"
    by (simp add: board_tie_open)
  have nonfull: "getAvailableBoards board_tie \<noteq> []"
    by (simp add: board_tie_cells)
  from first_found_tie_break [OF grid depth nowinner nonfull, of globals_ai_x True]
  obtain cell where order: "getAvailableBoards board_tie =
        filter (\<lambda>(r, c). board_tie ! r ! c = EMPTY_CELL) row_major"
    and r: "row (fst (minimax globals_ai_x board_tie True NegInfinity Infinity 2)) = Some (fst cell)"
    and c: "col (fst (minimax globals_ai_x board_tie True NegInfinity Infinity 2)) = Some (snd cell)"
    and s: "score (fst (minimax globals_ai_x board_tie True NegInfinity Infinity 2)) =
            child_score globals_ai_x board_tie True 2 cell"
    and best: "first_best True (child_score globals_ai_x board_tie True 2)
                 (getAvailableBoards board_tie) cell"
    by blast
  from r c have cell: "cell = (2, 0)"
    by (cases cell) (simp add: board_tie_result)
  have r': "row (fst (minimax globals_ai_x board_tie True NegInfinity Infinity 2)) = Some 2"
    and c': "col (fst (minimax globals_ai_x board_tie True NegInfinity Infinity 2)) = Some 0"
    by (simp_all add: board_tie_result)
  show ?thesis
    by (intro conjI)
       (rule grid board_tie_cells order board_tie_scores r' c' s [unfolded cell]
          best [unfolded cell])+
qed

section \<open>The entry point\<close>

lemma tryEmptyCells_find:
  "cells_empty nb cells \<Longrightarrow>
   tryEmptyCells up g board cells nb =
     (case find (\<lambda>cell. up board 3 3 cell) cells of Some cell \<Rightarrow> Inl cell | None \<Rightarrow> Inr nb)"
proof (induction cells)
  case Nil
  show ?case by simp
next
  case (Cons cell cells)
  obtain r c where cell: "cell = (r, c)"
    by (cases cell)
  from Cons.prems have here: "r < length nb" "c < length (nb ! r)" "nb ! r ! c = EMPTY_CELL"
    and rest: "cells_empty nb cells"
    by (simp_all add: cells_empty_def cell)
  have undo: "set_cell (set_cell nb r c (PLAYER_CURRENT g)) r c EMPTY_CELL = nb"
    using set_cell_restore [of r nb c "PLAYER_CURRENT g"] here by simp
  show ?case
    by (simp add: cell Let_def undo Cons.IH [OF rest])
qed

lemma useAIService_unfold:
  assumes "convertToBoard board = Inr nb"
  shows "useAIService up g board isFirstAI =
     (if short_circuit up board nb
      then (case find (\<lambda>cell. up board 3 3 cell) (getAvailableBoards nb) of
              Some (r, c) \<Rightarrow> Inr ((Some r, Some c), markers g isFirstAI)
            | None \<Rightarrow> Inl TypeError)
      else (let bestMove = fst (minimax (markers g isFirstAI) nb True NegInfinity Infinity (DEPTH g))
            in Inr ((row bestMove, col bestMove), (markers g isFirstAI)\<lparr>DEPTH := DEPTH g + 1\<rparr>)))"
proof (cases "short_circuit up board nb")
  case True
  then have "find (\<lambda>cell. up board 3 3 cell) (getAvailableBoards nb) \<noteq> None"
    by (auto simp add: short_circuit_def list_ex_iff find_None_iff)
  then obtain cell where "find (\<lambda>cell. up board 3 3 cell) (getAvailableBoards nb) = Some cell"
    by auto
  with True show ?thesis
    by (cases cell)
       (simp add: useAIService_def assms Let_def tryEmptyCells_find cells_empty_available
         short_circuit_def markers_def)
next
  case False
  then have "length (getAvailableBoards nb) \<le> 5 \<Longrightarrow>
             find (\<lambda>cell. up board 3 3 cell) (getAvailableBoards nb) = None"
    by (auto simp add: short_circuit_def list_ex_iff find_None_iff)
  with False show ?thesis
    by (simp add: useAIService_def assms Let_def tryEmptyCells_find cells_empty_available
        markers_def)
qed


text \<open>
  C5 (as amended). A call to \<open>useAIService\<close> that returns the move of the minimax branch
  leaves \<open>DEPTH\<close> incremented by exactly 1; a call that returns from the immediate-win
  loop leaves \<open>DEPTH\<close> as it was.
\<close>

theorem depth_incremented_by_search_only:
  assumes "convertToBoard board = Inr newBoads"
    and "useAIService usePieces g board isFirstAI = Inr (move, g')"
  shows "DEPTH g' = (if short_circuit usePieces board newBoads then DEPTH g else DEPTH g + 1)"
  using assms(2) unfolding useAIService_unfold [OF assms(1)]
  by (auto simp add: Let_def markers_def split: if_splits option.splits)

theorem depth_incremented_by_search_only_witness:
  "convertToBoard position_x_to_win =
     Inr [[''X'', ''X'', ''-''], [''O'', ''O'', ''-''], [''-'', ''-'', ''-'']] \<and>
   useAIService usePieces_never module_init position_x_to_win True =
     Inr ((Some 0, Some 2), \<lparr>DEPTH = 3, PLAYER_CURRENT = ''X'', PLAYER_OPPONENT = ''O''\<rparr>) \<and>
   DEPTH \<lparr>DEPTH = 3, PLAYER_CURRENT = ''X'', PLAYER_OPPONENT = ''O''\<rparr> =
     (if short_circuit usePieces_never position_x_to_win
           [[''X'', ''X'', ''-''], [''O'', ''O'', ''-''], [''-'', ''-'', ''-'']]
      then DEPTH module_init else DEPTH module_init + 1)"
proof -
  have conv: "convertToBoard position_x_to_win =
     Inr [[''X'', ''X'', ''-''], [''O'', ''O'', ''-''], [''-'', ''-'', ''-'']]"
    by code_simp
  have run: "useAIService usePieces_never module_init position_x_to_win True =
     Inr ((Some 0, Some 2), \<lparr>DEPTH = 3, PLAYER_CURRENT = ''X'', PLAYER_OPPONENT = ''O''\<rparr>)"
    by code_simp
  show ?thesis
    using conv run depth_incremented_by_search_only [OF conv run] by simp
qed

text \<open>
  The scenario of the specification with a collaborator that reports the win on (0,2):
  the call returns (0,2) from the loop and \<open>DEPTH\<close> is still 2.
\<close>

theorem depth_kept_when_win_found:
  "useAIService usePieces_at_0_2 module_init position_x_to_win True =
     Inr ((Some 0, Some 2), \<lparr>DEPTH = 2, PLAYER_CURRENT = ''X'', PLAYER_OPPONENT = ''O''\<rparr>) \<and>
   DEPTH module_init = 2"
  by code_simp




text \<open>
  C4 (as amended). For every position whose dense board has an empty cell and no winner
  according to \<open>isGameOver\<close>, and with the depth counter positive (it starts at 2 and
  only grows), \<open>useAIService\<close> returns a row and a column that are both defined, and
  they name an empty cell of the board.
\<close>

theorem useAIService_returns_cell:
  assumes conv: "convertToBoard board = Inr newBoads"
    and nonfull: "getAvailableBoards newBoads \<noteq> []"
    and nowinner: "\<not> isGameOver newBoads"
    and depth: "0 < DEPTH g"
  shows "\<exists>r c g'. useAIService usePieces g board isFirstAI = Inr ((Some r, Some c), g') \<and>
                  (r, c) \<in> set (getAvailableBoards newBoads)"
proof (cases "short_circuit usePieces board newBoads")
  case True
  then have "find (\<lambda>cell. usePieces board 3 3 cell) (getAvailableBoards newBoads) \<noteq> None"
    by (auto simp add: short_circuit_def list_ex_iff find_None_iff)
  then obtain r c where
    found: "find (\<lambda>cell. usePieces board 3 3 cell) (getAvailableBoards newBoads) = Some (r, c)"
    by auto
  then have "(r, c) \<in> set (getAvailableBoards newBoads)"
    by (auto simp add: find_Some_iff)
  with True found show ?thesis
    by (simp add: useAIService_unfold [OF conv])
next
  case False
  have "move_in (set (getAvailableBoards newBoads))
          (fst (minimax (markers g isFirstAI) newBoads True NegInfinity Infinity (DEPTH g)))"
    using depth nowinner nonfull by (intro minimax_finds_move) simp_all
  with False show ?thesis
    by (auto simp add: useAIService_unfold [OF conv] Let_def move_in_def)
qed

theorem useAIService_returns_cell_witness:
  "convertToBoard position_x_to_win =
     Inr [[''X'', ''X'', ''-''], [''O'', ''O'', ''-''], [''-'', ''-'', ''-'']] \<and>
   (\<exists>r c g'. useAIService usePieces_never module_init position_x_to_win True =
        Inr ((Some r, Some c), g') \<and>
      (r, c) \<in> set (getAvailableBoards
                    [[''X'', ''X'', ''-''], [''O'', ''O'', ''-''], [''-'', ''-'', ''-'']]))"
proof -
  let ?nb = "[[''X'', ''X'', ''-''], [''O'', ''O'', ''-''], [''-'', ''-'', ''-'']]"
  have conv: "convertToBoard position_x_to_win = Inr ?nb"
    by code_simp
  have nonfull: "getAvailableBoards ?nb \<noteq> []"
    by code_simp
  have nowinner: "\<not> isGameOver ?nb"
    by code_simp
  have depth: "0 < DEPTH module_init"
    by code_simp
  show ?thesis
    using conv useAIService_returns_cell [OF conv nonfull nowinner depth] by simp
qed

text \<open>
  A board with an empty cell on which \<open>useAIService\<close> returns no coordinates: X has
  completed the top row, four cells are empty and none of them completes a line for O,
  the AI's marker, so the collaborator rightly reports no win; the search then stops in
  its base case.
\<close>

theorem useAIService_no_move_after_win:
  "convertToBoard position_row0_won =
     Inr [[''X'', ''X'', ''X''], [''O'', ''-'', ''-''], [''-'', ''O'', ''-'']] \<and>
   getAvailableBoards [[''X'', ''X'', ''X''], [''O'', ''-'', ''-''], [''-'', ''O'', ''-'']] =
     [(1, 1), (1, 2), (2, 0), (2, 2)] \<and>
   usePieces_per_spec usePieces_never position_row0_won
     [[''X'', ''X'', ''X''], [''O'', ''-'', ''-''], [''-'', ''O'', ''-'']] ''O'' \<and>
   useAIService usePieces_never module_init position_row0_won False =
     Inr ((None, None), \<lparr>DEPTH = 3, PLAYER_CURRENT = ''O'', PLAYER_OPPONENT = ''X''\<rparr>)"
  by code_simp

end
